theory Spec2Isabelle
  imports Complex_Main "HOL-Library.Word"
begin

section \<open>The voice session of App.tsx\<close>

text \<open>
  The component \<open>App\<close> keeps its session in React state (\<open>state\<close>, \<open>zenData\<close>,
  \<open>culturalMode\<close>, \<open>toast\<close>) and in refs (\<open>mediaRecorderRef\<close>, \<open>audioContextRef\<close>,
  \<open>analyserRef\<close>, \<open>audioChunksRef\<close>, \<open>silenceTimerRef\<close>, \<open>lastSoundTimeRef\<close>,
  \<open>animationFrameRef\<close>). Every handler runs to its next \<open>await\<close> on the browser's single
  event loop, so the code between two awaits is a function from the session to the
  session, and what the browser holds for the component (pending animation frames,
  timers, queued recorder events, suspended continuations, playing sources) is part of
  the session as well.
  What the handlers do to the outside (alerts, calls of the services) is appended to a
  log.
\<close>

subsection \<open>Data\<close>

text \<open>
  Modelled from the spec: the type \<open>AppState\<close> of \<open>./types\<close>, which is not among the
  sources. The specification gives the session state as the enumeration of \<open>idle\<close>,
  \<open>listening\<close>, \<open>processing\<close> and \<open>speaking\<close>, the four values App.tsx uses.
\<close>

datatype AppState = idle | listening | processing | speaking

text \<open>
  Modelled from the spec: the types \<open>CulturalMode\<close> and \<open>ZenResponse\<close> of \<open>./types\<close>,
  which is not among the sources. The specification gives the mode as a default or a
  regional variant, and the analysis result as an emotion tag, a wisdom text, an optional
  breathing descriptor and reasoning fields. App.tsx names the modes \<open>'Universal'\<close> and
  \<open>'VN'\<close> and reads the fields \<open>emotion\<close>, \<open>wisdom_vi\<close> and \<open>breathing\<close>; the reasoning
  fields, which it only hands to a panel, are left out. The breathing descriptor is a
  string; an absent and an empty one are falsy.
\<close>

datatype CulturalMode = Universal | VN

record ZenResponse =
  emotion :: string
  wisdom_vi :: string
  breathing :: "string option"

text \<open>
  A blob is its bytes. The services of \<open>./services\<close> (\<open>analyzeAudio\<close>, \<open>generateSpeech\<close>,
  \<open>initAudio\<close>, \<open>playAmbient\<close>, \<open>startBreathing\<close>, \<open>stopAudio\<close>) are outside the
  component: a call of one is an entry of the log of effects, and what an awaited one
  answers is given to the continuation from outside.
\<close>

type_synonym Blob = "8 word list"

type_synonym error = string

text \<open>The \<open>state\<close> attribute of a MediaRecorder and of an AudioContext.\<close>

datatype RecordingState = inactive | recording | paused

datatype AudioContextState = suspended | running | closed

text \<open>
  A recorder carries the \<open>handleStop\<close> closure installed as its \<open>onstop\<close>; that closure
  captured \<open>culturalMode\<close> when it was made (\<open>useCallback\<close> with \<open>[culturalMode]\<close>).
\<close>

record MediaRecorder =
  rstate :: RecordingState
  onstop_mode :: CulturalMode

text \<open>
  A suspended \<open>reader.onloadend\<close> continuation of \<open>handleStop\<close>: which \<open>await\<close> it is
  parked at, with the locals it still needs.
\<close>

datatype task =
    Reading Blob CulturalMode
  | Analyzing
  | Synthesizing
  | Decoding

text \<open>
  A suspended continuation of \<open>startListening\<close>: which \<open>await\<close> it is parked at, with
  the mode captured by the \<open>handleStop\<close> closure of the render in which the click was
  handled.
\<close>

datatype start_task =
    Resuming CulturalMode
  | InitialisingAudio CulturalMode
  | AwaitingMic CulturalMode

datatype effect =
    InitAudio
  | RecorderStart
  | RecorderStop
  | StopAudio
  | Alert string
  | ConsoleError error
  | AnalyzeAudio Blob CulturalMode
  | PlayAmbient string
  | StartBreathing string
  | GenerateSpeech string
  | DecodeAudioData Blob
  | SourceStart Blob

record app =
  state :: AppState
  zenData :: "ZenResponse option"
  culturalMode :: CulturalMode
  toast :: "(string list \<times> CulturalMode) option"
  mediaRecorder :: "MediaRecorder option"
  audioContext :: "AudioContextState option"
  analyser :: bool
  audioChunks :: "Blob list"
  silenceTimer :: "nat option"
  lastSoundTime :: int
  animationFrame :: "nat option"
  frames :: "nat list"
  nextFrame :: nat
  timers :: "nat list"
  nextTimer :: nat
  stopEvents :: "CulturalMode list"
  tasks :: "task list"
  starts :: "start_task list"
  playing :: nat
  storedMode :: "CulturalMode option"
  storedExpire :: "int option"
  effects :: "effect list"

text \<open>
  \<open>frames\<close> are the handles of the \<open>checkSilence\<close> callbacks waiting for the next
  animation frame, \<open>timers\<close> the handles of pending timeouts, \<open>stopEvents\<close> the
  \<open>stop\<close> events a recorder has queued (each with the mode its handler captured),
  \<open>tasks\<close> the suspended continuations of \<open>handleStop\<close>, \<open>starts\<close> those of
  \<open>startListening\<close>, \<open>playing\<close> the started buffer sources whose \<open>onended\<close> has not
  fired. \<open>storedMode\<close> and \<open>storedExpire\<close> are the two
  localStorage entries. \<open>analyser\<close> tells whether \<open>analyserRef.current\<close> is set; the
  only analyser ever made has \<open>fftSize = 64\<close>.
\<close>

definition SILENCE_THRESHOLD :: real where
  "SILENCE_THRESHOLD = 15"

definition SILENCE_DURATION :: int where
  "SILENCE_DURATION = 2000"

definition fftSize :: nat where
  "fftSize = 64"

definition frequencyBinCount :: nat where
  "frequencyBinCount = fftSize div 2"

subsection \<open>What a tick of the silence detector reads\<close>

text \<open>
  \<open>freq\<close> is the analyser's byte frequency data by bin, \<open>now1\<close> and \<open>now2\<close> are the
  values of \<open>Date.now()\<close> at lines 145 and 147. The array has \<open>frequencyBinCount\<close> = 32
  entries, so the \<open>reduce\<close> without a start value does not raise, and the mean of 32
  bytes is exact in floating point.
\<close>

record tick_env =
  freq :: "nat \<Rightarrow> 8 word"
  now1 :: int
  now2 :: int

definition dataArray :: "tick_env \<Rightarrow> 8 word list" where
  "dataArray e = map (freq e) [0..<frequencyBinCount]"

definition average :: "8 word list \<Rightarrow> real" where
  "average d = real (sum_list (map unat d)) / real (length d)"

subsection \<open>Browser primitives\<close>

definition requestAnimationFrame :: "app \<Rightarrow> nat \<times> app" where
  "requestAnimationFrame s =
     (nextFrame s, s\<lparr>frames := frames s @ [nextFrame s], nextFrame := Suc (nextFrame s)\<rparr>)"

definition cancelAnimationFrame :: "nat \<Rightarrow> app \<Rightarrow> app" where
  "cancelAnimationFrame h s = s\<lparr>frames := removeAll h (frames s)\<rparr>"

definition clearTimeout :: "nat \<Rightarrow> app \<Rightarrow> app" where
  "clearTimeout h s = s\<lparr>timers := removeAll h (timers s)\<rparr>"

text \<open>
  \<open>MediaRecorder.stop()\<close> on a recorder that is not inactive: the recorder becomes
  inactive at once and its \<open>stop\<close> event is queued.
\<close>

definition recorder_stop :: "MediaRecorder \<Rightarrow> app \<Rightarrow> app" where
  "recorder_stop r s =
     s\<lparr>mediaRecorder := Some (r\<lparr>rstate := inactive\<rparr>),
       stopEvents := stopEvents s @ [onstop_mode r],
       effects := effects s @ [RecorderStop]\<rparr>"

subsection \<open>stopRecording (lines 63-70)\<close>

definition stopRecording :: "app \<Rightarrow> app" where
  "stopRecording s =
     (let s1 = (case mediaRecorder s of
                  None \<Rightarrow> s
                | Some r \<Rightarrow>
                    if rstate r \<noteq> inactive
                    then (recorder_stop r s)\<lparr>state := processing\<rparr>
                    else s);
          s2 = (case animationFrame s1 of
                  None \<Rightarrow> s1
                | Some h \<Rightarrow> if h \<noteq> 0 then cancelAnimationFrame h s1 else s1);
          s3 = (case silenceTimer s2 of
                  None \<Rightarrow> s2
                | Some h \<Rightarrow> if h \<noteq> 0 then clearTimeout h s2 else s2)
      in s3)"

text \<open>
  The two refs hold a handle or \<open>null\<close>; \<open>if (ref.current)\<close> is false for \<open>null\<close> and
  for the number 0.
\<close>

subsection \<open>handleDataAvailable (lines 72-74)\<close>

definition handleDataAvailable :: "Blob \<Rightarrow> app \<Rightarrow> app" where
  "handleDataAvailable d s =
     (if length d > 0 then s\<lparr>audioChunks := audioChunks s @ [d]\<rparr> else s)"

subsection \<open>checkSilence (lines 140-149)\<close>

definition checkSilence :: "tick_env \<Rightarrow> app \<Rightarrow> app" where
  "checkSilence e s =
     (if \<not> analyser s then s
      else
        let s1 = (if average (dataArray e) > SILENCE_THRESHOLD
                  then s\<lparr>lastSoundTime := now1 e\<rparr> else s)
        in if now2 e - lastSoundTime s1 > SILENCE_DURATION
           then stopRecording s1
           else (let (h, s2) = requestAnimationFrame s1
                 in s2\<lparr>animationFrame := Some h\<rparr>))"

subsection \<open>handleStop (lines 76-115)\<close>

text \<open>
  The synchronous part builds the blob from the chunks held at that moment and starts
  the reader; \<open>reader.onloadend\<close> is the continuation. Nothing in the outer \<open>try\<close>
  raises, so its \<open>catch\<close> (lines 111-114) has no branch here. The text after the comma
  of the data URL is the base64 form of the blob; the blob itself stands for it.
\<close>

definition handleStop :: "CulturalMode \<Rightarrow> app \<Rightarrow> app" where
  "handleStop m s = s\<lparr>tasks := tasks s @ [Reading (concat (audioChunks s)) m]\<rparr>"

text \<open>The \<open>catch\<close> of lines 104-108.\<close>

definition catch_processing :: "error \<Rightarrow> app \<Rightarrow> app" where
  "catch_processing err s =
     s\<lparr>state := idle,
       effects := effects s @ [ConsoleError err, Alert ''Could not connect to Zen Master.'']\<rparr>"

text \<open>How an awaited operation settles: \<open>Inl\<close> is a rejection.\<close>

datatype settled =
    Loaded bool
  | Analyzed "error + ZenResponse"
  | Synthesized "error + Blob"
  | Decoded "error + Blob"

text \<open>
  One continuation step: the code from one \<open>await\<close> to the next. The result is the
  \<open>await\<close> the continuation parks at next, or \<open>None\<close> when it has run to its end.
  A reader that ends without a result makes \<open>reader.result.split\<close> raise before the
  inner \<open>try\<close>, which ends the continuation with nothing done.
\<close>

fun continue :: "task \<Rightarrow> settled \<Rightarrow> app \<Rightarrow> task option \<times> app" where
  "continue (Reading b m) (Loaded ok) s =
     (if ok then (Some Analyzing, s\<lparr>effects := effects s @ [AnalyzeAudio b m]\<rparr>)
      else (None, s))"
| "continue Analyzing (Analyzed r) s =
     (case r of
        Inl err \<Rightarrow> (None, catch_processing err s)
      | Inr analysis \<Rightarrow>
          (Some Synthesizing,
           s\<lparr>zenData := Some analysis,
             effects := effects s @ [PlayAmbient (emotion analysis)]
               @ (case breathing analysis of
                    None \<Rightarrow> []
                  | Some p \<Rightarrow> if p \<noteq> [] then [StartBreathing p] else [])
               @ [GenerateSpeech (wisdom_vi analysis)]\<rparr>))"
| "continue Synthesizing (Synthesized r) s =
     (case r of
        Inl err \<Rightarrow> (None, catch_processing err s)
      | Inr audioBuffer \<Rightarrow>
          (let s1 = s\<lparr>state := speaking\<rparr>
           in if audioContext s1 \<noteq> None \<and> analyser s1
              then (Some Decoding, s1\<lparr>effects := effects s1 @ [DecodeAudioData audioBuffer]\<rparr>)
              else (None, s1)))"
| "continue Decoding (Decoded r) s =
     (case r of
        Inl err \<Rightarrow> (None, catch_processing err s)
      | Inr buffer \<Rightarrow>
          (None, s\<lparr>playing := Suc (playing s), effects := effects s @ [SourceStart buffer]\<rparr>))"
| "continue t r s = (Some t, s)"

text \<open>The last equation: the settlement is not the one the continuation waits for.\<close>

definition settle :: "nat \<Rightarrow> settled \<Rightarrow> app \<Rightarrow> app" where
  "settle k r s =
     (if k < length (tasks s)
      then (case continue (tasks s ! k) r s of
              (Some t, s') \<Rightarrow> s'\<lparr>tasks := (tasks s)[k := t]\<rparr>
            | (None, s') \<Rightarrow> s'\<lparr>tasks := take k (tasks s) @ drop (Suc k) (tasks s)\<rparr>)
      else s)"

text \<open>\<open>source.onended\<close> (line 101).\<close>

definition onended :: "app \<Rightarrow> app" where
  "onended s = s\<lparr>state := idle\<rparr>"

subsection \<open>startListening (lines 117-155) with initWebAudio (lines 49-61)\<close>

text \<open>
  \<open>startListening\<close> gives way to other events at three awaits: at \<open>resume()\<close> of a suspended
  context inside \<open>initWebAudio\<close>, at \<open>initAudio()\<close> and at \<open>getUserMedia\<close>. The click runs
  the code up to the first of them, and each settlement runs it up to the next. The
  state stays \<open>idle\<close> until line 134, so a click while a start is under way begins one
  more start. (An \<open>await\<close> of \<open>initWebAudio()\<close> that met no suspended context resumes
  before any other event.)
\<close>

text \<open>The \<open>catch\<close> of lines 151-154.\<close>

definition catch_start :: "app \<Rightarrow> app" where
  "catch_start s =
     s\<lparr>effects := effects s @ [Alert ''Microphone access required.''], state := idle\<rparr>"

text \<open>Lines 56-60 of \<open>initWebAudio\<close>, and line 120 up to its \<open>await\<close>.\<close>

definition after_initWebAudio :: "CulturalMode \<Rightarrow> app \<Rightarrow> start_task option \<times> app" where
  "after_initWebAudio m s =
     (let s1 = (if \<not> analyser s then s\<lparr>analyser := True\<rparr> else s)
      in (Some (InitialisingAudio m), s1\<lparr>effects := effects s1 @ [InitAudio]\<rparr>))"

text \<open>
  From the click to the first \<open>await\<close>: lines 50-55 of \<open>initWebAudio\<close>, with the state
  \<open>c\<close> of a newly made context, and on when there is nothing to resume.
\<close>

definition startListening :: "AudioContextState \<Rightarrow> app \<Rightarrow> start_task option \<times> app" where
  "startListening c s =
     (let s1 = (case audioContext s of
                  None \<Rightarrow> s\<lparr>audioContext := Some c\<rparr>
                | Some x \<Rightarrow> s)
      in if audioContext s1 = Some suspended then (Some (Resuming (culturalMode s)), s1)
         else after_initWebAudio (culturalMode s) s1)"

text \<open>
  Lines 123-150, once the microphone is granted: \<open>t0\<close> is the clock at line 138 and \<open>e\<close>
  what the first \<open>checkSilence()\<close> reads.
\<close>

definition listen :: "CulturalMode \<Rightarrow> int \<Rightarrow> tick_env \<Rightarrow> app \<Rightarrow> app" where
  "listen m t0 e s =
     (let s3 = s\<lparr>mediaRecorder := Some \<lparr>rstate = recording, onstop_mode = m\<rparr>,
                 audioChunks := [],
                 effects := effects s @ [RecorderStart]\<rparr>;
          s4 = s3\<lparr>state := listening, zenData := None,
                  effects := effects s3 @ [StopAudio],
                  lastSoundTime := t0\<rparr>
      in checkSilence e s4)"

text \<open>How an awaited operation of a start settles: \<open>False\<close> is a rejection.\<close>

datatype start_settled =
    Resumed bool
  | AudioInitialised bool
  | MicSettled bool int tick_env

fun start_continue :: "start_task \<Rightarrow> start_settled \<Rightarrow> app \<Rightarrow> start_task option \<times> app" where
  "start_continue (Resuming m) (Resumed ok) s =
     (if ok then after_initWebAudio m (s\<lparr>audioContext := Some running\<rparr>)
      else (None, catch_start s))"
| "start_continue (InitialisingAudio m) (AudioInitialised ok) s =
     (if ok then (Some (AwaitingMic m), s) else (None, catch_start s))"
| "start_continue (AwaitingMic m) (MicSettled granted t0 e) s =
     (if granted then (None, listen m t0 e s) else (None, catch_start s))"
| "start_continue t r s = (Some t, s)"

definition start_settle :: "nat \<Rightarrow> start_settled \<Rightarrow> app \<Rightarrow> app" where
  "start_settle k r s =
     (if k < length (starts s)
      then (case start_continue (starts s ! k) r s of
              (Some t, s') \<Rightarrow> s'\<lparr>starts := (starts s)[k := t]\<rparr>
            | (None, s') \<Rightarrow> s'\<lparr>starts := take k (starts s) @ drop (Suc k) (starts s)\<rparr>)
      else s)"

subsection \<open>handleModeChange (lines 39-47) and the cache (lines 31-37)\<close>

text \<open>
  The toast text is made of the first two detected items and the mode; the pair stands
  for the text. The only timeouts of the component are the ones that clear the toast.
\<close>

definition handleModeChange :: "CulturalMode \<Rightarrow> string list \<Rightarrow> int \<Rightarrow> app \<Rightarrow> app" where
  "handleModeChange mode items now s =
     s\<lparr>culturalMode := mode,
       storedMode := Some mode,
       storedExpire := Some (now + 24 * 60 * 60 * 1000),
       toast := Some (take 2 items, mode),
       timers := timers s @ [nextTimer s],
       nextTimer := Suc (nextTimer s)\<rparr>"

definition toast_timeout :: "app \<Rightarrow> app" where
  "toast_timeout s = s\<lparr>toast := None\<rparr>"

definition loadCache :: "int \<Rightarrow> app \<Rightarrow> app" where
  "loadCache now s =
     (case (storedMode s, storedExpire s) of
        (Some cached, Some expire) \<Rightarrow> if now < expire then s\<lparr>culturalMode := cached\<rparr> else s
      | _ \<Rightarrow> s)"

text \<open>The component after its first render and the load of the cache.\<close>

definition mount :: "CulturalMode option \<Rightarrow> int option \<Rightarrow> int \<Rightarrow> app" where
  "mount cached expire now =
     loadCache now
       \<lparr>state = idle, zenData = None, culturalMode = Universal, toast = None,
        mediaRecorder = None, audioContext = None, analyser = False, audioChunks = [],
        silenceTimer = None, lastSoundTime = 0, animationFrame = None,
        frames = [], nextFrame = 1, timers = [], nextTimer = 1,
        stopEvents = [], tasks = [], starts = [], playing = 0,
        storedMode = cached, storedExpire = expire, effects = []\<rparr>"

subsection \<open>The event loop\<close>

text \<open>
  An event the browser does not hold for the component (a frame handle that is not
  pending, a settlement no continuation waits for, the end of a source that is not
  playing) leaves the session as it is. A recorder delivers data only until its
  \<open>stop\<close> event has been dispatched. The recorder followed is the one held in
  \<open>mediaRecorderRef\<close>: a recorder that a later start has replaced there is out of the
  component's reach, and what it still delivers is left out.
\<close>

datatype event =
    Click AudioContextState
  | StartSettled nat start_settled
  | AnimationFrame nat tick_env
  | DataAvailable Blob
  | RecorderStopped
  | Settled nat settled
  | SourceEnded
  | ModeChange CulturalMode "string list" int
  | Timeout nat

definition recorder_live :: "app \<Rightarrow> bool" where
  "recorder_live s =
     ((case mediaRecorder s of None \<Rightarrow> False | Some r \<Rightarrow> rstate r \<noteq> inactive)
      \<or> stopEvents s \<noteq> [])"

fun step :: "app \<Rightarrow> event \<Rightarrow> app" where
  "step s (Click c) =
     (if state s = idle
      then (case startListening c s of
              (Some t, s') \<Rightarrow> s'\<lparr>starts := starts s @ [t]\<rparr>
            | (None, s') \<Rightarrow> s')
      else stopRecording s)"
| "step s (StartSettled k r) = start_settle k r s"
| "step s (AnimationFrame h e) =
     (if h \<in> set (frames s) then checkSilence e (s\<lparr>frames := removeAll h (frames s)\<rparr>)
      else s)"
| "step s (DataAvailable d) = (if recorder_live s then handleDataAvailable d s else s)"
| "step s RecorderStopped =
     (case stopEvents s of [] \<Rightarrow> s | m # ms \<Rightarrow> handleStop m (s\<lparr>stopEvents := ms\<rparr>))"
| "step s (Settled k r) = settle k r s"
| "step s SourceEnded =
     (if playing s > 0 then onended (s\<lparr>playing := playing s - 1\<rparr>) else s)"
| "step s (ModeChange mode items now) = handleModeChange mode items now s"
| "step s (Timeout h) =
     (if h \<in> set (timers s) then toast_timeout (s\<lparr>timers := removeAll h (timers s)\<rparr>)
      else s)"

fun run :: "app \<Rightarrow> event list \<Rightarrow> app" where
  "run s [] = s"
| "run s (e # es) = run (step s e) es"

subsection \<open>A start without interruption\<close>

text \<open>
  What the environment decides during one start: the state of a newly made audio
  context, whether \<open>resume()\<close>, \<open>initAudio()\<close> and \<open>getUserMedia\<close> resolve, the clock at
  line 138, and what the first \<open>checkSilence()\<close> reads. \<open>start_events\<close> are the click
  and the three settlements of the start parked at \<open>k\<close>, with nothing in between; a
  settlement the start does not wait for is not held by the browser.
\<close>

record start_env =
  freshContext :: AudioContextState
  resumeOk :: bool
  initAudioOk :: bool
  micGranted :: bool
  now0 :: int
  tick0 :: tick_env

definition start_events :: "start_env \<Rightarrow> nat \<Rightarrow> event list" where
  "start_events v k =
     [Click (freshContext v), StartSettled k (Resumed (resumeOk v)),
      StartSettled k (AudioInitialised (initAudioOk v)),
      StartSettled k (MicSettled (micGranted v) (now0 v) (tick0 v))]"

text \<open>
  The whole of \<open>startListening\<close> as one function, as it runs when nothing comes between
  its awaits.
\<close>

definition initWebAudio_whole :: "start_env \<Rightarrow> app \<Rightarrow> bool \<times> app" where
  "initWebAudio_whole v s =
     (let s1 = (case audioContext s of
                  None \<Rightarrow> s\<lparr>audioContext := Some (freshContext v)\<rparr>
                | Some c \<Rightarrow> s)
      in if audioContext s1 = Some suspended \<and> \<not> resumeOk v then (False, s1)
         else
           let s2 = (if audioContext s1 = Some suspended
                     then s1\<lparr>audioContext := Some running\<rparr> else s1)
           in (True, if \<not> analyser s2 then s2\<lparr>analyser := True\<rparr> else s2))"

definition start_whole :: "start_env \<Rightarrow> app \<Rightarrow> app" where
  "start_whole v s =
     (let (ok, s1) = initWebAudio_whole v s
      in if \<not> ok then catch_start s1
         else
           let s2 = s1\<lparr>effects := effects s1 @ [InitAudio]\<rparr>
           in if \<not> initAudioOk v then catch_start s2
              else if \<not> micGranted v then catch_start s2
              else
                let s3 = s2\<lparr>mediaRecorder :=
                               Some \<lparr>rstate = recording, onstop_mode = culturalMode s2\<rparr>,
                             audioChunks := [],
                             effects := effects s2 @ [RecorderStart]\<rparr>;
                    s4 = s3\<lparr>state := listening, zenData := None,
                             effects := effects s3 @ [StopAudio],
                             lastSoundTime := now0 v\<rparr>
                in checkSilence (tick0 v) s4)"

subsection \<open>Well-formed sessions\<close>

text \<open>
  What holds of a session as long as no start has overlapped another start or a cycle:
  no silence timer is set; frame handles are positive; the recorder records exactly
  while the state is \<open>listening\<close>, and then the one pending frame is the one in
  \<open>animationFrameRef\<close>; while processing there is at most one queued stop event or one
  continuation before its decode; while speaking at most one continuation at its decode
  or one playing source; an idle session holds nothing.
\<close>

definition rec_active :: "app \<Rightarrow> bool" where
  "rec_active s = (case mediaRecorder s of None \<Rightarrow> False | Some r \<Rightarrow> rstate r \<noteq> inactive)"

definition wf :: "app \<Rightarrow> bool" where
  "wf s =
     (silenceTimer s = None \<and> 0 < nextFrame s \<and>
      (case state s of
         idle \<Rightarrow>
           \<not> rec_active s \<and> frames s = [] \<and> stopEvents s = [] \<and> tasks s = [] \<and> playing s = 0
       | listening \<Rightarrow>
           map_option rstate (mediaRecorder s) = Some recording \<and> analyser s \<and>
           map Some (frames s) = [animationFrame s] \<and> animationFrame s \<noteq> Some 0 \<and>
           stopEvents s = [] \<and> tasks s = [] \<and> playing s = 0
       | processing \<Rightarrow>
           \<not> rec_active s \<and> frames s = [] \<and> playing s = 0 \<and>
           length (stopEvents s) + length (tasks s) \<le> 1 \<and> Decoding \<notin> set (tasks s)
       | speaking \<Rightarrow>
           \<not> rec_active s \<and> frames s = [] \<and> stopEvents s = [] \<and>
           length (tasks s) + playing s \<le> 1 \<and> set (tasks s) \<subseteq> {Decoding}))"

text \<open>A well-formed session with no start under way.\<close>

definition calm :: "app \<Rightarrow> bool" where
  "calm s = (wf s \<and> starts s = [])"

text \<open>The session just before a tick of a running detector: its frame has been taken.\<close>

definition pre_tick :: "app \<Rightarrow> bool" where
  "pre_tick s =
     (silenceTimer s = None \<and> 0 < nextFrame s \<and> state s = listening \<and>
      map_option rstate (mediaRecorder s) = Some recording \<and>
      analyser s \<and> frames s = [] \<and> stopEvents s = [] \<and> tasks s = [] \<and> playing s = 0)"

subsection \<open>The polling loop and the silence window\<close>

text \<open>
  The browser runs the pending \<open>checkSilence\<close> callback once per animation frame;
  \<open>poll\<close> feeds it what successive frames read, for as long as a callback is pending.
\<close>

fun poll :: "app \<Rightarrow> tick_env list \<Rightarrow> app" where
  "poll s [] = s"
| "poll s (e # es) =
     (case frames s of [] \<Rightarrow> s | h # _ \<Rightarrow> poll (step s (AnimationFrame h e)) es)"

text \<open>
  In the words of the specification: a sample is above threshold when its mean exceeds
  15; the silence window is the time of the last such sample, or the start of the
  phase; silence is due at a tick when more than 2000 ms have passed since then.
\<close>

definition loud :: "tick_env \<Rightarrow> bool" where
  "loud e = (average (dataArray e) > 15)"

fun last_sound :: "int \<Rightarrow> tick_env list \<Rightarrow> int" where
  "last_sound t0 [] = t0"
| "last_sound t0 (e # es) = last_sound (if loud e then now1 e else t0) es"

definition silence_due :: "int \<Rightarrow> tick_env list \<Rightarrow> bool" where
  "silence_due t0 es = (es \<noteq> [] \<and> now2 (last es) - last_sound t0 es > 2000)"

definition due_within :: "int \<Rightarrow> tick_env list \<Rightarrow> bool" where
  "due_within t0 es = (\<exists>n \<in> {1..length es}. silence_due t0 (take n es))"

text \<open>What \<open>lastSoundTimeRef\<close> holds after line 145 of a tick.\<close>

definition window :: "tick_env \<Rightarrow> app \<Rightarrow> int" where
  "window e s = (if loud e then now1 e else lastSoundTime s)"

subsection \<open>Counting what a session has done\<close>

definition stops :: "app \<Rightarrow> nat" where
  "stops s = count_list (effects s) RecorderStop"

fun is_playback :: "effect \<Rightarrow> bool" where
  "is_playback (SourceStart b) = True"
| "is_playback x = False"

fun is_notice :: "effect \<Rightarrow> bool" where
  "is_notice (Alert m) = True"
| "is_notice x = False"

definition playbacks :: "app \<Rightarrow> nat" where
  "playbacks s = length (filter is_playback (effects s))"

definition notices :: "app \<Rightarrow> nat" where
  "notices s = length (filter is_notice (effects s))"

subsection \<open>Events that are not part of the processing of an utterance\<close>

text \<open>
  What the user, the clock, the recorder's data and the frame callbacks may do at any
  moment, as opposed to the stop event, the settling of the awaited calls and the end
  of the playback.
\<close>

fun bystander :: "event \<Rightarrow> bool" where
  "bystander (Click c) = True"
| "bystander (StartSettled k r) = True"
| "bystander (AnimationFrame h e) = True"
| "bystander (DataAvailable d) = True"
| "bystander (ModeChange m i n) = True"
| "bystander (Timeout h) = True"
| "bystander e = False"


definition cycle_analysis_fails ::
  "event list \<Rightarrow> event list \<Rightarrow> event list \<Rightarrow> error \<Rightarrow> event list" where
  "cycle_analysis_fails n0 n1 n2 err =
     n0 @ RecorderStopped # n1 @ Settled 0 (Loaded True) #
     n2 @ [Settled 0 (Analyzed (Inl err))]"

definition cycle_synthesis_fails ::
  "event list \<Rightarrow> event list \<Rightarrow> event list \<Rightarrow> event list \<Rightarrow> ZenResponse \<Rightarrow> error \<Rightarrow> event list" where
  "cycle_synthesis_fails n0 n1 n2 n3 a err =
     n0 @ RecorderStopped # n1 @ Settled 0 (Loaded True) #
     n2 @ Settled 0 (Analyzed (Inr a)) # n3 @ [Settled 0 (Synthesized (Inl err))]"

text \<open>What a cycle is judged by.\<close>

definition view ::
  "app \<Rightarrow> AppState \<times> ZenResponse option \<times> task list \<times> CulturalMode list \<times> nat \<times> bool \<times> nat \<times> nat" where
  "view s =
     (state s, zenData s, tasks s, stopEvents s, playing s,
      audioContext s \<noteq> None \<and> analyser s, playbacks s, notices s)"

text \<open>The non-empty chunks among the data events, in order.\<close>

fun delivered :: "event list \<Rightarrow> Blob list" where
  "delivered [] = []"
| "delivered (DataAvailable d # es) = (if length d > 0 then d # delivered es else delivered es)"
| "delivered (e # es) = delivered es"

text \<open>A speaking session with no continuation left and no source playing.\<close>

definition stuck :: "app \<Rightarrow> bool" where
  "stuck s = (calm s \<and> state s = speaking \<and> tasks s = [] \<and> playing s = 0)"

text \<open>The audio context and the analyser are there.\<close>

definition has_audio :: "app \<Rightarrow> bool" where
  "has_audio s = (audioContext s \<noteq> None \<and> analyser s)"

text \<open>The recorder, the audio graph and the refs of the silence detector.\<close>

definition kept ::
  "app \<Rightarrow> MediaRecorder option \<times> AudioContextState option \<times> bool \<times> int \<times> nat option \<times>
     nat option \<times> nat list" where
  "kept s =
     (mediaRecorder s, audioContext s, analyser s, lastSoundTime s, animationFrame s,
      silenceTimer s, frames s)"

text \<open>Settlements that are rejections, and the events that end a processing.\<close>

fun rejected :: "settled \<Rightarrow> bool" where
  "rejected (Analyzed (Inl err)) = True"
| "rejected (Synthesized (Inl err)) = True"
| "rejected (Decoded (Inl err)) = True"
| "rejected r = False"

fun start_rejected :: "start_settled \<Rightarrow> bool" where
  "start_rejected (Resumed ok) = (\<not> ok)"
| "start_rejected (AudioInitialised ok) = (\<not> ok)"
| "start_rejected (MicSettled granted t0 e) = (\<not> granted)"


subsection \<open>The capture window\<close>

text \<open>
  From a successful start until the recorder's stop event is dispatched: the recorder
  records, or it has been stopped and its stop event is queued; \<open>m\<close> is the mode its
  stop handler captured.
\<close>

definition capturing :: "CulturalMode \<Rightarrow> app \<Rightarrow> bool" where
  "capturing m s =
     (calm s \<and> tasks s = [] \<and>
      (state s = listening \<and> map_option onstop_mode (mediaRecorder s) = Some m \<or>
       state s = processing \<and> stopEvents s = [m]))"

subsection \<open>Example inputs\<close>

definition quiet_tick :: "int \<Rightarrow> tick_env" where
  "quiet_tick t = \<lparr>freq = (\<lambda>_. 0), now1 = t, now2 = t\<rparr>"

definition loud_tick :: "int \<Rightarrow> tick_env" where
  "loud_tick t = \<lparr>freq = (\<lambda>_. 255), now1 = t, now2 = t\<rparr>"

definition start_ok :: "int \<Rightarrow> start_env" where
  "start_ok t =
     \<lparr>freshContext = running, resumeOk = True, initAudioOk = True, micGranted = True,
      now0 = t, tick0 = quiet_tick t\<rparr>"

text \<open>A freshly mounted component, and the session after a start at time 0.\<close>

definition mounted :: app where
  "mounted = mount None None 0"

definition listening0 :: app where
  "listening0 = run mounted (start_events (start_ok 0) 0)"

definition zen0 :: ZenResponse where
  "zen0 = \<lparr>emotion = ''calm'', wisdom_vi = ''Tho that sau.'', breathing = Some ''4-7-8''\<rparr>"

text \<open>
  The session after the stop control has been used, and after analysis and synthesis
  have both succeeded.
\<close>

definition processing0 :: app where
  "processing0 = step listening0 (Click running)"

definition speaking0 :: app where
  "speaking0 =
     run processing0
       [RecorderStopped, Settled 0 (Loaded True), Settled 0 (Analyzed (Inr zen0)),
        Settled 0 (Synthesized (Inr [1, 2, 3]))]"



text \<open>
  A start left waiting for \<open>initAudio()\<close> while a second start, begun by a second click,
  has led through a whole processing up to the decode.
\<close>

definition waiting :: app where
  "waiting =
     run mounted
       [Click running, Click running,
        StartSettled 1 (AudioInitialised True), StartSettled 1 (MicSettled True 0 (quiet_tick 0)),
        Click running, RecorderStopped, Settled 0 (Loaded True),
        Settled 0 (Analyzed (Inr zen0)), Settled 0 (Synthesized (Inr [1, 2, 3]))]"

section \<open>stopRecording\<close>

lemma stopRecording_frames:
  "frames (stopRecording s) =
     (case animationFrame s of None \<Rightarrow> frames s
      | Some h \<Rightarrow> if h \<noteq> 0 then removeAll h (frames s) else frames s)"
  by (cases "mediaRecorder s"; cases "animationFrame s"; cases "silenceTimer s")
     (simp_all add: stopRecording_def recorder_stop_def cancelAnimationFrame_def
          clearTimeout_def Let_def)

lemma stopRecording_timers:
  "timers (stopRecording s) =
     (case silenceTimer s of None \<Rightarrow> timers s
      | Some h \<Rightarrow> if h \<noteq> 0 then removeAll h (timers s) else timers s)"
  by (cases "mediaRecorder s"; cases "animationFrame s"; cases "silenceTimer s")
     (simp_all add: stopRecording_def recorder_stop_def cancelAnimationFrame_def
          clearTimeout_def Let_def)

lemma stopRecording_inactive:
  "\<not> rec_active s \<Longrightarrow>
     stopRecording s = s\<lparr>frames := frames (stopRecording s), timers := timers (stopRecording s)\<rparr>"
  by (cases "mediaRecorder s"; cases "animationFrame s"; cases "silenceTimer s")
     (simp_all add: rec_active_def stopRecording_def cancelAnimationFrame_def
          clearTimeout_def Let_def)

lemma stopRecording_active:
  "mediaRecorder s = Some r \<Longrightarrow> rstate r \<noteq> inactive \<Longrightarrow>
     stopRecording s =
       s\<lparr>mediaRecorder := Some (r\<lparr>rstate := inactive\<rparr>),
         stopEvents := stopEvents s @ [onstop_mode r],
         effects := effects s @ [RecorderStop],
         state := processing,
         frames := frames (stopRecording s), timers := timers (stopRecording s)\<rparr>"
  by (cases "animationFrame s"; cases "silenceTimer s")
     (simp_all add: stopRecording_def recorder_stop_def cancelAnimationFrame_def
          clearTimeout_def Let_def)

lemma stopRecording_idem: "stopRecording (stopRecording s) = stopRecording s"
proof -
  let ?t = "stopRecording s"
  have a: "animationFrame ?t = animationFrame s" "silenceTimer ?t = silenceTimer s"
    "\<not> rec_active ?t"
    by (cases "mediaRecorder s"; cases "animationFrame s"; cases "silenceTimer s";
        simp add: rec_active_def stopRecording_def recorder_stop_def cancelAnimationFrame_def
          clearTimeout_def Let_def)+
  have "frames (stopRecording ?t) = frames ?t" "timers (stopRecording ?t) = timers ?t"
    by (simp_all add: stopRecording_frames [of ?t] stopRecording_timers [of ?t] a)
       (simp_all add: stopRecording_frames [of s] stopRecording_timers [of s] split: option.splits)
  with stopRecording_inactive [OF a(3)] show ?thesis by simp
qed

lemma stopRecording_inactive_eq:
  "\<not> rec_active s \<Longrightarrow>
     stopRecording s =
       s\<lparr>frames := (case animationFrame s of None \<Rightarrow> frames s
                     | Some h \<Rightarrow> if h \<noteq> 0 then removeAll h (frames s) else frames s),
         timers := (case silenceTimer s of None \<Rightarrow> timers s
                     | Some h \<Rightarrow> if h \<noteq> 0 then removeAll h (timers s) else timers s)\<rparr>"
proof -
  assume "\<not> rec_active s"
  from stopRecording_inactive [OF this] show ?thesis
    by (simp only: stopRecording_frames stopRecording_timers)
qed

lemma stopRecording_active_eq:
  "mediaRecorder s = Some r \<Longrightarrow> rstate r \<noteq> inactive \<Longrightarrow>
     stopRecording s =
       s\<lparr>mediaRecorder := Some (r\<lparr>rstate := inactive\<rparr>),
         stopEvents := stopEvents s @ [onstop_mode r],
         effects := effects s @ [RecorderStop],
         state := processing,
         frames := (case animationFrame s of None \<Rightarrow> frames s
                     | Some h \<Rightarrow> if h \<noteq> 0 then removeAll h (frames s) else frames s),
         timers := (case silenceTimer s of None \<Rightarrow> timers s
                     | Some h \<Rightarrow> if h \<noteq> 0 then removeAll h (timers s) else timers s)\<rparr>"
proof -
  assume "mediaRecorder s = Some r" "rstate r \<noteq> inactive"
  from stopRecording_active [OF this] show ?thesis
    by (simp only: stopRecording_frames stopRecording_timers)
qed

lemma stopRecording_state:
  "state (stopRecording s) = (if rec_active s then processing else state s)"
proof (cases "rec_active s")
  case False
  then show ?thesis by (simp add: stopRecording_inactive_eq)
next
  case True
  then obtain r where "mediaRecorder s = Some r" "rstate r \<noteq> inactive"
    by (auto simp: rec_active_def split: option.splits)
  with True show ?thesis by (simp add: stopRecording_active_eq)
qed

lemma stopRecording_same:
  "starts (stopRecording s) = starts s \<and> tasks (stopRecording s) = tasks s \<and>
   zenData (stopRecording s) = zenData s \<and> audioChunks (stopRecording s) = audioChunks s \<and>
   audioContext (stopRecording s) = audioContext s \<and> analyser (stopRecording s) = analyser s \<and>
   animationFrame (stopRecording s) = animationFrame s \<and>
   silenceTimer (stopRecording s) = silenceTimer s \<and>
   lastSoundTime (stopRecording s) = lastSoundTime s \<and> playing (stopRecording s) = playing s \<and>
   playbacks (stopRecording s) = playbacks s \<and> notices (stopRecording s) = notices s \<and>
   set (effects s) \<subseteq> set (effects (stopRecording s))"
proof (cases "rec_active s")
  case False
  then show ?thesis by (simp add: stopRecording_inactive_eq playbacks_def notices_def)
next
  case True
  then obtain r where "mediaRecorder s = Some r" "rstate r \<noteq> inactive"
    by (auto simp: rec_active_def split: option.splits)
  then show ?thesis by (auto simp: stopRecording_active_eq playbacks_def notices_def)
qed

section \<open>checkSilence\<close>

lemma checkSilence_absent: "\<not> analyser s \<Longrightarrow> checkSilence e s = s"
  by (simp add: checkSilence_def)

lemma checkSilence_due:
  "analyser s \<Longrightarrow> now2 e - window e s > 2000 \<Longrightarrow>
     checkSilence e s = stopRecording (s\<lparr>lastSoundTime := window e s\<rparr>)"
  by (cases "loud e")
     (simp_all add: checkSilence_def window_def loud_def SILENCE_THRESHOLD_def
        SILENCE_DURATION_def Let_def)

lemma checkSilence_again:
  "analyser s \<Longrightarrow> \<not> now2 e - window e s > 2000 \<Longrightarrow>
     checkSilence e s =
       s\<lparr>lastSoundTime := window e s, frames := frames s @ [nextFrame s],
         nextFrame := Suc (nextFrame s), animationFrame := Some (nextFrame s)\<rparr>"
  by (cases "loud e")
     (simp_all add: checkSilence_def window_def loud_def SILENCE_THRESHOLD_def
        SILENCE_DURATION_def requestAnimationFrame_def Let_def)

lemma checkSilence_same:
  "starts (checkSilence e s) = starts s \<and> tasks (checkSilence e s) = tasks s \<and>
   zenData (checkSilence e s) = zenData s \<and> audioChunks (checkSilence e s) = audioChunks s \<and>
   audioContext (checkSilence e s) = audioContext s \<and> analyser (checkSilence e s) = analyser s \<and>
   silenceTimer (checkSilence e s) = silenceTimer s \<and> playing (checkSilence e s) = playing s \<and>
   playbacks (checkSilence e s) = playbacks s \<and> notices (checkSilence e s) = notices s \<and>
   set (effects s) \<subseteq> set (effects (checkSilence e s)) \<and>
   (state (checkSilence e s) = state s \<or> state (checkSilence e s) = processing)"
proof (cases "analyser s")
  case False
  then show ?thesis by (simp add: checkSilence_absent)
next
  case True
  show ?thesis
  proof (cases "now2 e - window e s > 2000")
    case False
    with True show ?thesis by (simp add: checkSilence_again playbacks_def notices_def)
  next
    case d: True
    let ?u = "s\<lparr>lastSoundTime := window e s\<rparr>"
    have "playbacks ?u = playbacks s" "notices ?u = notices s"
      by (simp_all add: playbacks_def notices_def)
    with stopRecording_same [of ?u] stopRecording_state [of ?u] True d show ?thesis
      by (simp add: checkSilence_due)
  qed
qed

section \<open>The invariant\<close>

lemma wf_mount: "wf (mount c x n)"
  by (simp add: wf_def mount_def loadCache_def rec_active_def split: option.splits)

lemma wf_stopRecording: "wf s \<Longrightarrow> wf (stopRecording s)"
  by (cases "state s")
     (auto simp: wf_def stopRecording_def rec_active_def recorder_stop_def
        cancelAnimationFrame_def clearTimeout_def Let_def split: option.splits)

lemma wf_checkSilence: "pre_tick s \<Longrightarrow> wf (checkSilence e s)"
  by (auto simp: pre_tick_def wf_def checkSilence_def stopRecording_def rec_active_def
        recorder_stop_def cancelAnimationFrame_def clearTimeout_def requestAnimationFrame_def
        Let_def split: option.splits)

lemma wf_effects [simp]: "wf (s\<lparr>effects := x\<rparr>) = wf s"
  by (simp add: wf_def rec_active_def split: AppState.splits)

lemma wf_catch_start: "wf s \<Longrightarrow> state s = idle \<Longrightarrow> wf (catch_start s)"
  by (simp add: wf_def rec_active_def catch_start_def)

lemma wf_starts [simp]: "wf (s\<lparr>starts := x\<rparr>) = wf s"
  by (simp add: wf_def rec_active_def split: AppState.splits)

lemma wf_click: "wf s \<Longrightarrow> wf (step s (Click c))"
proof (cases "state s = idle")
  case False
  assume "wf s"
  with False show ?thesis by (simp add: wf_stopRecording)
next
  case True
  assume "wf s"
  with True show ?thesis
    by (cases "audioContext s")
       (auto simp: startListening_def after_initWebAudio_def Let_def wf_def rec_active_def)
qed

lemma wf_frame: "wf s \<Longrightarrow> wf (step s (AnimationFrame h e))"
proof (cases "h \<in> set (frames s)")
  case False
  assume "wf s"
  with False show ?thesis by simp
next
  case True
  assume "wf s"
  with True have "pre_tick (s\<lparr>frames := removeAll h (frames s)\<rparr>)"
    by (cases "state s") (auto simp: wf_def pre_tick_def split: option.splits)
  with True show ?thesis
    by (simp add: wf_checkSilence)
qed

lemma wf_continue:
  "wf s \<Longrightarrow> tasks s = [t] \<Longrightarrow> continue t r s = (t', s') \<Longrightarrow>
     wf (s'\<lparr>tasks := (case t' of None \<Rightarrow> [] | Some u \<Rightarrow> [u])\<rparr>)"
  by (cases "(t, r, s)" rule: continue.cases; cases "state s")
     (auto simp: wf_def rec_active_def catch_processing_def Let_def
        split: sum.splits if_splits option.splits)

lemma wf_tasks_cases: "wf s \<Longrightarrow> tasks s = [] \<or> (\<exists>t. tasks s = [t])"
  by (cases "state s"; cases "tasks s"; cases "tl (tasks s)") (auto simp: wf_def)

lemma wf_settle: "wf s \<Longrightarrow> wf (settle k r s)"
proof -
  assume w: "wf s"
  from wf_tasks_cases [OF w] show ?thesis
  proof
    assume "tasks s = []"
    with w show ?thesis by (simp add: settle_def)
  next
    assume "\<exists>t. tasks s = [t]"
    then obtain t where t: "tasks s = [t]" ..
    show ?thesis
    proof (cases "k = 0")
      case False
      with w t show ?thesis by (simp add: settle_def)
    next
      case True
      obtain t' s' where c: "continue t r s = (t', s')"
        by (cases "continue t r s")
      from wf_continue [OF w t c] show ?thesis
        using True t c by (cases t') (simp_all add: settle_def)
    qed
  qed
qed

text \<open>
  Every event keeps a session with no start under way well-formed. The settlement of
  a start is left out: it may arrive in any phase, and is followed up separately.
\<close>

lemma wf_step: "wf s \<Longrightarrow> starts s = [] \<Longrightarrow> wf (step s e)"
proof (cases e)
  case (Click c)
  assume "wf s"
  then show ?thesis unfolding Click by (rule wf_click)
next
  case (StartSettled k r)
  assume "wf s" "starts s = []"
  then show ?thesis using StartSettled by (simp add: start_settle_def)
next
  case (AnimationFrame h t)
  assume "wf s"
  then show ?thesis unfolding AnimationFrame by (rule wf_frame)
next
  case (DataAvailable d)
  assume "wf s"
  then show ?thesis using DataAvailable
    by (cases "state s") (simp_all add: wf_def rec_active_def handleDataAvailable_def)
next
  case RecorderStopped
  assume "wf s"
  then show ?thesis using RecorderStopped
    by (cases "state s"; cases "stopEvents s")
       (auto simp: wf_def rec_active_def handleStop_def)
next
  case (Settled k r)
  assume "wf s"
  then show ?thesis using Settled by (simp add: wf_settle)
next
  case SourceEnded
  assume "wf s"
  then show ?thesis using SourceEnded
    by (cases "state s"; cases "tasks s") (auto simp: wf_def rec_active_def onended_def)
next
  case (ModeChange m items n)
  assume "wf s"
  then show ?thesis using ModeChange
    by (cases "state s") (simp_all add: wf_def rec_active_def handleModeChange_def)
next
  case (Timeout h)
  assume "wf s"
  then show ?thesis using Timeout
    by (cases "state s") (simp_all add: wf_def rec_active_def toast_timeout_def)
qed

section \<open>A start, step by step and as a whole\<close>

lemma stopRecording_starts: "stopRecording (s\<lparr>starts := x\<rparr>) = (stopRecording s)\<lparr>starts := x\<rparr>"
  by (simp add: stopRecording_def recorder_stop_def cancelAnimationFrame_def clearTimeout_def
      Let_def split: option.splits)

lemma checkSilence_starts: "checkSilence e (s\<lparr>starts := x\<rparr>) = (checkSilence e s)\<lparr>starts := x\<rparr>"
proof (cases "analyser s")
  case False
  then show ?thesis by (simp add: checkSilence_absent)
next
  case True
  have w: "window e (s\<lparr>starts := x\<rparr>) = window e s" by (simp add: window_def)
  from True have a: "analyser (s\<lparr>starts := x\<rparr>)" by simp
  show ?thesis
  proof (cases "now2 e - window e s > 2000")
    case d: True
    then have d': "now2 e - window e (s\<lparr>starts := x\<rparr>) > 2000" by (simp add: w)
    have "s\<lparr>starts := x, lastSoundTime := window e s\<rparr> = s\<lparr>lastSoundTime := window e s, starts := x\<rparr>"
      by simp
    then have "checkSilence e (s\<lparr>starts := x\<rparr>) =
        stopRecording (s\<lparr>lastSoundTime := window e s, starts := x\<rparr>)"
      by (simp only: checkSilence_due [OF a d'] w)
    also have "\<dots> = (stopRecording (s\<lparr>lastSoundTime := window e s\<rparr>))\<lparr>starts := x\<rparr>"
      by (rule stopRecording_starts)
    finally show ?thesis by (simp only: checkSilence_due [OF True d])
  next
    case d: False
    then have d': "\<not> now2 e - window e (s\<lparr>starts := x\<rparr>) > 2000" by (simp add: w)
    show ?thesis
      by (simp only: checkSilence_again [OF a d'] checkSilence_again [OF True d] w) simp
  qed
qed

lemma listen_starts: "listen m t0 e (s\<lparr>starts := x\<rparr>) = (listen m t0 e s)\<lparr>starts := x\<rparr>"
proof -
  let ?u = "s\<lparr>mediaRecorder := Some \<lparr>rstate = recording, onstop_mode = m\<rparr>,
          audioChunks := [], state := listening, zenData := None,
          effects := effects s @ [RecorderStart, StopAudio], lastSoundTime := t0\<rparr>"
  have l: "listen m t0 e y =
      checkSilence e (y\<lparr>mediaRecorder := Some \<lparr>rstate = recording, onstop_mode = m\<rparr>,
          audioChunks := [], state := listening, zenData := None,
          effects := effects y @ [RecorderStart, StopAudio], lastSoundTime := t0\<rparr>)" for y
    by (simp add: listen_def Let_def)
  have "(s\<lparr>starts := x\<rparr>)\<lparr>mediaRecorder := Some \<lparr>rstate = recording, onstop_mode = m\<rparr>,
          audioChunks := [], state := listening, zenData := None,
          effects := effects (s\<lparr>starts := x\<rparr>) @ [RecorderStart, StopAudio],
          lastSoundTime := t0\<rparr> = ?u\<lparr>starts := x\<rparr>"
    by simp
  then have "listen m t0 e (s\<lparr>starts := x\<rparr>) = checkSilence e (?u\<lparr>starts := x\<rparr>)"
    by (simp only: l)
  also have "\<dots> = (checkSilence e ?u)\<lparr>starts := x\<rparr>"
    by (rule checkSilence_starts)
  finally show ?thesis by (simp only: l)
qed

lemma listen_same_starts: "starts (listen m t0 e s) = starts s"
  by (simp add: listen_def Let_def checkSilence_same)

lemma listen_starts_nil:
  "starts s = [] \<Longrightarrow> (listen m t0 e (s\<lparr>starts := x\<rparr>))\<lparr>starts := []\<rparr> = listen m t0 e s"
proof -
  assume "starts s = []"
  then have "starts (listen m t0 e s) = []" by (simp add: listen_same_starts)
  then have "(listen m t0 e s)\<lparr>starts := []\<rparr> = listen m t0 e s" by simp
  then show ?thesis by (simp add: listen_starts)
qed

lemma start_whole_listen:
  "start_whole v s =
     (let (ok, s1) = initWebAudio_whole v s
      in if \<not> ok then catch_start s1
         else
           let s2 = s1\<lparr>effects := effects s1 @ [InitAudio]\<rparr>
           in if \<not> initAudioOk v then catch_start s2
              else if \<not> micGranted v then catch_start s2
              else listen (culturalMode s) (now0 v) (tick0 v) s2)"
  by (cases "audioContext s")
     (simp_all add: start_whole_def initWebAudio_whole_def listen_def Let_def)

lemma initWebAudio_whole_fields:
  "initWebAudio_whole v s = (ok, s1) \<Longrightarrow>
     state s1 = state s \<and> silenceTimer s1 = silenceTimer s \<and> nextFrame s1 = nextFrame s \<and>
     mediaRecorder s1 = mediaRecorder s \<and> frames s1 = frames s \<and>
     stopEvents s1 = stopEvents s \<and> tasks s1 = tasks s \<and> playing s1 = playing s \<and>
     animationFrame s1 = animationFrame s \<and>
     (ok \<longrightarrow> analyser s1 \<and> audioContext s1 \<noteq> None)"
  by (auto simp: initWebAudio_whole_def Let_def split: if_splits option.splits)

lemma wf_start_whole: "wf s \<Longrightarrow> state s = idle \<Longrightarrow> wf (start_whole v s)"
proof -
  assume w: "wf s" and i: "state s = idle"
  obtain ok s1 where iw: "initWebAudio_whole v s = (ok, s1)"
    by (cases "initWebAudio_whole v s")
  note f = initWebAudio_whole_fields [OF iw]
  from w i f have w1: "wf s1" and i1: "state s1 = idle"
    by (simp_all add: wf_def rec_active_def)
  show ?thesis
  proof (cases "ok \<and> initAudioOk v \<and> micGranted v")
    case False
    with w1 i1 show ?thesis
      by (auto simp: start_whole_def iw Let_def wf_catch_start)
  next
    case True
    have "pre_tick (s1\<lparr>effects := effects s1 @ [InitAudio],
            mediaRecorder := Some \<lparr>rstate = recording, onstop_mode = culturalMode s1\<rparr>,
            audioChunks := [], effects := effects s1 @ [InitAudio, RecorderStart],
            state := listening, zenData := None,
            effects := effects s1 @ [InitAudio, RecorderStart, StopAudio],
            lastSoundTime := now0 v\<rparr>)"
      using w1 i1 True f by (simp add: pre_tick_def wf_def)
    then show ?thesis using True
      by (simp add: start_whole_def iw Let_def wf_checkSilence)
  qed
qed

text \<open>
  The click and the three settlements of a start, with nothing in between, amount to
  the start as a whole.
\<close>

lemma start_uninterrupted:
  "state s = idle \<Longrightarrow> starts s = [] \<Longrightarrow> run s (start_events v 0) = start_whole v s"
proof -
  assume i: "state s = idle" and n: "starts s = []"
  have c: "state (catch_start x) = idle" for x by (simp add: catch_start_def)
  show ?thesis
  proof (cases "audioContext s")
    case None
    with i n show ?thesis
      by (cases "freshContext v"; cases "resumeOk v"; cases "initAudioOk v"; cases "micGranted v")
         (simp_all add: start_events_def startListening_def after_initWebAudio_def
            start_settle_def start_whole_listen initWebAudio_whole_def Let_def catch_start_def
            listen_starts_nil)
  next
    case (Some x)
    with i n show ?thesis
      by (cases x; cases "resumeOk v"; cases "initAudioOk v"; cases "micGranted v")
         (simp_all add: start_events_def startListening_def after_initWebAudio_def
            start_settle_def start_whole_listen initWebAudio_whole_def Let_def catch_start_def
            listen_starts_nil)
  qed
qed

section \<open>Example sessions\<close>

lemma average_const:
  "freq e = (\<lambda>_. c) \<Longrightarrow> average (dataArray e) = real (unat c)"
  by (simp add: average_def dataArray_def frequencyBinCount_def fftSize_def
        map_replicate_const sum_list_replicate)

lemma average_quiet [simp]: "average (dataArray (quiet_tick t)) = 0"
  by (simp add: average_const quiet_tick_def)

lemma average_loud [simp]: "average (dataArray (loud_tick t)) = 255"
  by (simp add: average_const loud_tick_def)

lemma tick_times [simp]:
  "now1 (quiet_tick t) = t" "now2 (quiet_tick t) = t"
  "now1 (loud_tick t) = t" "now2 (loud_tick t) = t"
  by (simp_all add: quiet_tick_def loud_tick_def)

lemma mounted_eq:
  "mounted =
     \<lparr>state = idle, zenData = None, culturalMode = Universal, toast = None,
      mediaRecorder = None, audioContext = None, analyser = False, audioChunks = [],
      silenceTimer = None, lastSoundTime = 0, animationFrame = None,
      frames = [], nextFrame = 1, timers = [], nextTimer = 1,
      stopEvents = [], tasks = [], starts = [], playing = 0,
      storedMode = None, storedExpire = None, effects = []\<rparr>"
  by (simp add: mounted_def mount_def loadCache_def)

lemma listening0_eq:
  "listening0 =
     \<lparr>state = listening, zenData = None, culturalMode = Universal, toast = None,
      mediaRecorder = Some \<lparr>rstate = recording, onstop_mode = Universal\<rparr>,
      audioContext = Some running, analyser = True, audioChunks = [],
      silenceTimer = None, lastSoundTime = 0, animationFrame = Some 1,
      frames = [1], nextFrame = 2, timers = [], nextTimer = 1,
      stopEvents = [], tasks = [], starts = [], playing = 0,
      storedMode = None, storedExpire = None,
      effects = [InitAudio, RecorderStart, StopAudio]\<rparr>"
proof -
  have "listening0 = start_whole (start_ok 0) mounted"
    unfolding listening0_def by (rule start_uninterrupted) (simp_all add: mounted_eq)
  also have "\<dots> =
     \<lparr>state = listening, zenData = None, culturalMode = Universal, toast = None,
      mediaRecorder = Some \<lparr>rstate = recording, onstop_mode = Universal\<rparr>,
      audioContext = Some running, analyser = True, audioChunks = [],
      silenceTimer = None, lastSoundTime = 0, animationFrame = Some 1,
      frames = [1], nextFrame = 2, timers = [], nextTimer = 1,
      stopEvents = [], tasks = [], starts = [], playing = 0,
      storedMode = None, storedExpire = None,
      effects = [InitAudio, RecorderStart, StopAudio]\<rparr>"
    by (simp add: mounted_eq start_whole_def initWebAudio_whole_def
      start_ok_def checkSilence_def requestAnimationFrame_def Let_def
      SILENCE_THRESHOLD_def SILENCE_DURATION_def)
  finally show ?thesis .
qed

lemma wf_mounted: "wf mounted"
  by (simp add: mounted_def wf_mount)

lemma wf_listening0: "wf listening0"
  by (simp add: listening0_eq wf_def)

section \<open>Sessions with no start under way\<close>

lemma continue_same:
  "continue t r s = (t', s') \<Longrightarrow>
     kept s' = kept s \<and> starts s' = starts s \<and> audioChunks s' = audioChunks s \<and>
     stopEvents s' = stopEvents s \<and> timers s' = timers s \<and>
     set (effects s) \<subseteq> set (effects s')"
  by (cases "(t, r, s)" rule: continue.cases)
     (auto simp: kept_def catch_processing_def Let_def split: sum.splits if_splits)

lemma settle_same:
  "kept (settle k r s) = kept s \<and> starts (settle k r s) = starts s \<and>
   audioChunks (settle k r s) = audioChunks s \<and> stopEvents (settle k r s) = stopEvents s \<and>
   timers (settle k r s) = timers s \<and> set (effects s) \<subseteq> set (effects (settle k r s))"
proof (cases "k < length (tasks s)")
  case False
  then show ?thesis by (simp add: settle_def)
next
  case True
  obtain t' s' where c: "continue (tasks s ! k) r s = (t', s')"
    by (cases "continue (tasks s ! k) r s")
  from continue_same [OF c] True c show ?thesis
    by (cases t') (simp_all add: settle_def kept_def)
qed

lemma starts_step:
  "starts s = [] \<Longrightarrow> (\<forall>c. e \<noteq> Click c) \<or> state s \<noteq> idle \<Longrightarrow> starts (step s e) = []"
  by (cases e)
     (auto simp: stopRecording_same checkSilence_same settle_same start_settle_def
        handleDataAvailable_def handleStop_def onended_def handleModeChange_def
        toast_timeout_def split: list.splits)

text \<open>
  A session with no start under way stays so under every event but a click in \<open>idle\<close>,
  and a start that nothing interrupts leads from one such session to another.
\<close>

lemma calm_step: "calm s \<Longrightarrow> (\<forall>c. e \<noteq> Click c) \<or> state s \<noteq> idle \<Longrightarrow> calm (step s e)"
  by (simp add: calm_def wf_step starts_step)

lemma calm_run: "calm s \<Longrightarrow> \<forall>e\<in>set es. \<forall>c. e \<noteq> Click c \<Longrightarrow> calm (run s es)"
proof (induction es arbitrary: s)
  case Nil
  then show ?case by simp
next
  case (Cons e es)
  from Cons.prems have "calm (step s e)" by (intro calm_step) simp_all
  with Cons show ?case by simp
qed

lemma start_whole_starts: "starts (start_whole v s) = starts s"
  by (cases "audioContext s")
     (simp_all add: start_whole_listen initWebAudio_whole_def catch_start_def Let_def
        listen_same_starts)


lemma calm_mounted: "calm mounted"
  by (simp add: calm_def wf_mounted) (simp add: mounted_eq)

lemma calm_listening0: "calm listening0"
  by (simp add: calm_def wf_listening0) (simp add: listening0_eq)

section \<open>The stop operation\<close>

lemma stopRecording_wf_inactive: "wf s \<Longrightarrow> \<not> rec_active s \<Longrightarrow> stopRecording s = s"
proof -
  assume w: "wf s" and n: "\<not> rec_active s"
  then have "state s \<noteq> listening"
    by (auto simp: wf_def rec_active_def split: option.splits)
  with w have "frames s = []" "silenceTimer s = None"
    by (cases "state s"; simp add: wf_def)+
  then have "frames (stopRecording s) = frames s" "timers (stopRecording s) = timers s"
    by (simp_all add: stopRecording_frames stopRecording_timers split: option.splits)
  with stopRecording_inactive [OF n] show ?thesis by simp
qed

text \<open>
  C7. Stopping when the recorder is not recording (there is none, or it is inactive)
  leaves the session state and the recorder as they are, requests nothing, and in a
  well-formed session changes nothing at all. Stopping a recording recorder makes it
  inactive and queues its stop event, whose dispatch runs \<open>handleStop\<close> on the chunks.
  Stopping twice is the same as stopping once.
\<close>

theorem stopRecording_idempotent:
  "(\<not> rec_active s \<longrightarrow>
      state (stopRecording s) = state s \<and>
      mediaRecorder (stopRecording s) = mediaRecorder s \<and>
      stopEvents (stopRecording s) = stopEvents s \<and>
      effects (stopRecording s) = effects s \<and>
      (wf s \<longrightarrow> stopRecording s = s)) \<and>
   (\<forall>r. mediaRecorder s = Some r \<and> rstate r = recording \<longrightarrow>
      mediaRecorder (stopRecording s) = Some (r\<lparr>rstate := inactive\<rparr>) \<and>
      effects (stopRecording s) = effects s @ [RecorderStop] \<and>
      stopEvents (stopRecording s) = stopEvents s @ [onstop_mode r] \<and>
      (stopEvents s = [] \<longrightarrow>
         tasks (step (stopRecording s) RecorderStopped) =
           tasks s @ [Reading (concat (audioChunks s)) (onstop_mode r)])) \<and>
   stopRecording (stopRecording s) = stopRecording s"
proof (intro conjI impI allI)
  assume n: "\<not> rec_active s"
  note e = stopRecording_inactive [OF n]
  show "state (stopRecording s) = state s" by (subst e) simp
  show "mediaRecorder (stopRecording s) = mediaRecorder s" by (subst e) simp
  show "stopEvents (stopRecording s) = stopEvents s" by (subst e) simp
  show "effects (stopRecording s) = effects s" by (subst e) simp
  assume "wf s"
  then show "stopRecording s = s" using n by (rule stopRecording_wf_inactive)
next
  fix r
  assume "mediaRecorder s = Some r \<and> rstate r = recording"
  then have m: "mediaRecorder s = Some r" and a: "rstate r \<noteq> inactive" by simp_all
  note e = stopRecording_active [OF m a]
  show "mediaRecorder (stopRecording s) = Some (r\<lparr>rstate := inactive\<rparr>)" by (subst e) simp
  show "effects (stopRecording s) = effects s @ [RecorderStop]" by (subst e) simp
  show "stopEvents (stopRecording s) = stopEvents s @ [onstop_mode r]" by (subst e) simp
  assume "stopEvents s = []"
  then show "tasks (step (stopRecording s) RecorderStopped) =
      tasks s @ [Reading (concat (audioChunks s)) (onstop_mode r)]"
    by (subst e, subst (2) e) (simp add: handleStop_def)
next
  show "stopRecording (stopRecording s) = stopRecording s" by (rule stopRecording_idem)
qed

theorem stopRecording_idempotent_witness:
  "\<not> rec_active mounted \<and> wf mounted \<and> stopRecording mounted = mounted \<and>
   mediaRecorder listening0 = Some \<lparr>rstate = recording, onstop_mode = Universal\<rparr> \<and>
   stopEvents listening0 = [] \<and>
   effects (stopRecording listening0) = effects listening0 @ [RecorderStop] \<and>
   tasks (step (stopRecording listening0) RecorderStopped) = [Reading [] Universal]"
proof -
  have n: "\<not> rec_active mounted"
    by (simp add: mounted_eq rec_active_def)
  have m: "mediaRecorder listening0 = Some \<lparr>rstate = recording, onstop_mode = Universal\<rparr>"
    and q: "stopEvents listening0 = []" "tasks listening0 = []" "audioChunks listening0 = []"
    by (simp_all add: listening0_eq)
  from stopRecording_idempotent [of mounted] n wf_mounted
  have a: "stopRecording mounted = mounted" by blast
  from stopRecording_idempotent [of listening0] m q
  have b: "effects (stopRecording listening0) = effects listening0 @ [RecorderStop]"
    and c: "tasks (step (stopRecording listening0) RecorderStopped) = [Reading [] Universal]"
    by (simp_all del: step.simps)
  from n wf_mounted a m q(1) b c show ?thesis by blast
qed

section \<open>The stop control while listening\<close>

text \<open>
  Whatever the starts and cycles under way, the state is \<open>listening\<close> only while the
  recorder held in \<open>mediaRecorderRef\<close> records: line 134 follows the start of a new
  recorder, and \<open>stopRecording\<close> leaves \<open>listening\<close> when it stops one.
\<close>

lemma listen_same:
  "silenceTimer (listen m t0 e s) = silenceTimer s \<and> tasks (listen m t0 e s) = tasks s \<and>
   playing (listen m t0 e s) = playing s \<and> playbacks (listen m t0 e s) = playbacks s \<and>
   notices (listen m t0 e s) = notices s \<and>
   audioContext (listen m t0 e s) = audioContext s \<and> analyser (listen m t0 e s) = analyser s"
proof -
  let ?u = "s\<lparr>mediaRecorder := Some \<lparr>rstate = recording, onstop_mode = m\<rparr>,
          audioChunks := [], state := listening, zenData := None,
          effects := effects s @ [RecorderStart, StopAudio], lastSoundTime := t0\<rparr>"
  have e: "listen m t0 e s = checkSilence e ?u" by (simp add: listen_def Let_def)
  have "playbacks ?u = playbacks s" "notices ?u = notices s"
    by (simp_all add: playbacks_def notices_def)
  with checkSilence_same [of e ?u] show ?thesis
    unfolding e by simp
qed

lemma start_continue_same:
  "start_continue t r s = (t', s') \<Longrightarrow>
     silenceTimer s' = silenceTimer s \<and> tasks s' = tasks s \<and> playing s' = playing s \<and>
     playbacks s' = playbacks s \<and>
     (audioContext s \<noteq> None \<longrightarrow> audioContext s' \<noteq> None) \<and> (analyser s \<longrightarrow> analyser s')"
proof (cases "(t, r, s)" rule: start_continue.cases)
  case (3 m granted t0 e s0)
  assume "start_continue t r s = (t', s')"
  with 3 have "s' = (if granted then listen m t0 e s else catch_start s)"
    by (auto split: if_splits)
  moreover have "playbacks (catch_start s) = playbacks s"
    by (simp add: catch_start_def playbacks_def)
  ultimately show ?thesis
    using listen_same [of m t0 e s] by (cases granted) (simp_all add: catch_start_def)
qed (auto simp: catch_start_def after_initWebAudio_def Let_def playbacks_def split: if_splits)

lemma listen_recording:
  "state (listen m t0 e s) = listening \<Longrightarrow>
     map_option rstate (mediaRecorder (listen m t0 e s)) = Some recording"
proof -
  let ?u = "s\<lparr>mediaRecorder := Some \<lparr>rstate = recording, onstop_mode = m\<rparr>,
          audioChunks := [], state := listening, zenData := None,
          effects := effects s @ [RecorderStart, StopAudio], lastSoundTime := t0\<rparr>"
  assume l: "state (listen m t0 e s) = listening"
  have e: "listen m t0 e s = checkSilence e ?u" by (simp add: listen_def Let_def)
  show ?thesis
  proof (cases "analyser s \<and> now2 e - window e ?u > 2000")
    case True
    then have "checkSilence e ?u = stopRecording (?u\<lparr>lastSoundTime := window e ?u\<rparr>)"
      by (intro checkSilence_due) simp_all
    then have "state (listen m t0 e s) = processing"
      by (simp only: e stopRecording_state) (simp add: rec_active_def)
    with l show ?thesis by simp
  next
    case False
    then show ?thesis
      by (cases "analyser s") (simp_all add: e checkSilence_again checkSilence_absent)
  qed
qed

lemma stopRecording_records:
  "state s = listening \<longrightarrow> map_option rstate (mediaRecorder s) = Some recording \<Longrightarrow>
     state (stopRecording s) \<noteq> listening"
  by (cases "mediaRecorder s") (auto simp: stopRecording_state rec_active_def)

lemma checkSilence_records:
  assumes "state s = listening \<longrightarrow> map_option rstate (mediaRecorder s) = Some recording"
    and "state (checkSilence e s) = listening"
  shows "map_option rstate (mediaRecorder (checkSilence e s)) = Some recording"
proof (cases "analyser s \<and> now2 e - window e s > 2000")
  case True
  then have e: "checkSilence e s = stopRecording (s\<lparr>lastSoundTime := window e s\<rparr>)"
    by (intro checkSilence_due) simp_all
  from assms(1) have "state (stopRecording (s\<lparr>lastSoundTime := window e s\<rparr>)) \<noteq> listening"
    by (intro stopRecording_records) simp
  with assms(2) show ?thesis by (simp only: e)
next
  case False
  with assms show ?thesis
    by (cases "analyser s") (simp_all add: checkSilence_again checkSilence_absent)
qed

lemma start_continue_records:
  assumes "start_continue t r s = (t', s')"
    and "state s = listening \<longrightarrow> map_option rstate (mediaRecorder s) = Some recording"
    and "state s' = listening"
  shows "map_option rstate (mediaRecorder s') = Some recording"
proof (cases "(t, r, s)" rule: start_continue.cases)
  case (3 m granted t0 e s0)
  with assms(1) have "s' = (if granted then listen m t0 e s else catch_start s)"
    by (auto split: if_splits)
  with assms(3) listen_recording [of m t0 e s] show ?thesis
    by (cases granted) (simp_all add: catch_start_def)
qed (use assms in \<open>auto simp: catch_start_def after_initWebAudio_def Let_def split: if_splits\<close>)

lemma continue_state:
  "continue t r s = (t', s') \<Longrightarrow> state s' = state s \<or> state s' = idle \<or> state s' = speaking"
  by (cases "(t, r, s)" rule: continue.cases)
     (auto simp: catch_processing_def Let_def split: sum.splits if_splits)

lemma settle_state:
  "state (settle k r s) = state s \<or> state (settle k r s) = idle \<or>
   state (settle k r s) = speaking"
proof (cases "k < length (tasks s)")
  case False
  then show ?thesis by (simp add: settle_def)
next
  case True
  obtain t' s' where c: "continue (tasks s ! k) r s = (t', s')"
    by (cases "continue (tasks s ! k) r s")
  from continue_state [OF c] True c show ?thesis
    by (cases t') (simp_all add: settle_def)
qed

lemma settle_recorder: "mediaRecorder (settle k r s) = mediaRecorder s"
  using settle_same [of k r s] by (simp add: kept_def)

lemma listening_records:
  assumes "state s = listening \<longrightarrow> map_option rstate (mediaRecorder s) = Some recording"
    and "state (step s e) = listening"
  shows "map_option rstate (mediaRecorder (step s e)) = Some recording"
proof (cases e)
  case (Click c)
  show ?thesis
  proof (cases "state s = idle")
    case True
    then have "state (step s (Click c)) = idle"
      by (cases "audioContext s") (auto simp: startListening_def after_initWebAudio_def Let_def)
    with assms(2) Click show ?thesis by simp
  next
    case False
    with assms(2) Click stopRecording_records [OF assms(1)] show ?thesis by simp
  qed
next
  case (StartSettled k r)
  show ?thesis
  proof (cases "k < length (starts s)")
    case False
    with assms StartSettled show ?thesis by (simp add: start_settle_def)
  next
    case True
    obtain t' s' where c: "start_continue (starts s ! k) r s = (t', s')"
      by (cases "start_continue (starts s ! k) r s")
    from True c assms(2) StartSettled have "state s' = listening"
      by (cases t') (simp_all add: start_settle_def)
    from start_continue_records [OF c assms(1) this] True c StartSettled show ?thesis
      by (cases t') (simp_all add: start_settle_def)
  qed
next
  case (AnimationFrame h x)
  show ?thesis
  proof (cases "h \<in> set (frames s)")
    case False
    with assms AnimationFrame show ?thesis by simp
  next
    case True
    from assms(1) have
      "state (s\<lparr>frames := removeAll h (frames s)\<rparr>) = listening \<longrightarrow>
       map_option rstate (mediaRecorder (s\<lparr>frames := removeAll h (frames s)\<rparr>)) = Some recording"
      by simp
    from checkSilence_records [OF this, of x] True assms(2) AnimationFrame show ?thesis
      by simp
  qed
next
  case (Settled k r)
  with assms settle_state [of k r s] show ?thesis
    by (auto simp: settle_recorder)
next
  case RecorderStopped
  with assms show ?thesis by (cases "stopEvents s") (simp_all add: handleStop_def)
qed (use assms in \<open>auto simp: handleDataAvailable_def onended_def
        handleModeChange_def toast_timeout_def split: if_splits\<close>)

lemma start_settle_timer: "silenceTimer (start_settle k r s) = silenceTimer s"
proof (cases "k < length (starts s)")
  case False
  then show ?thesis by (simp add: start_settle_def)
next
  case True
  obtain t' s' where c: "start_continue (starts s ! k) r s = (t', s')"
    by (cases "start_continue (starts s ! k) r s")
  from start_continue_same [OF c] True c show ?thesis
    by (cases t') (simp_all add: start_settle_def)
qed

text \<open>No line of the component assigns \<open>silenceTimerRef\<close>.\<close>

lemma silenceTimer_step: "silenceTimer (step s e) = silenceTimer s"
proof (cases e)
  case (Click c)
  then show ?thesis
    by (cases "audioContext s")
       (auto simp: startListening_def after_initWebAudio_def Let_def stopRecording_same)
next
  case (Settled k r)
  with settle_same [of k r s] show ?thesis by (simp add: kept_def)
qed (auto simp: start_settle_timer checkSilence_same handleDataAvailable_def handleStop_def
       onended_def handleModeChange_def toast_timeout_def split: list.splits)

lemma silenceTimer_run: "silenceTimer (run s es) = silenceTimer s"
  by (induction es arbitrary: s) (simp_all add: silenceTimer_step)





section \<open>Ticks of the silence detector\<close>

lemma listening_frame:
  "wf s \<Longrightarrow> state s = listening \<Longrightarrow> \<exists>h. frames s = [h] \<and> animationFrame s = Some h \<and> h \<noteq> 0"
  by (cases "frames s"; cases "animationFrame s") (auto simp: wf_def)

lemma tick_due:
  assumes "wf s" "state s = listening" "frames s = [h]" "now2 e - window e s > 2000"
  shows "state (step s (AnimationFrame h e)) = processing"
    and "frames (step s (AnimationFrame h e)) = []"
    and "stops (step s (AnimationFrame h e)) = stops s + 1"
proof -
  from assms(1,2) obtain r where m: "mediaRecorder s = Some r" and r: "rstate r = recording"
    and a: "analyser s"
    by (auto simp: wf_def)
  let ?s = "s\<lparr>frames := [], lastSoundTime := window e s\<rparr>"
  have w: "window e (s\<lparr>frames := []\<rparr>) = window e s" by (simp add: window_def)
  have "checkSilence e (s\<lparr>frames := []\<rparr>) =
      stopRecording (s\<lparr>frames := [], lastSoundTime := window e (s\<lparr>frames := []\<rparr>)\<rparr>)"
    using a assms(4) w by (intro checkSilence_due) simp_all
  then have c: "step s (AnimationFrame h e) = stopRecording ?s"
    using assms(3) w by simp
  have m': "mediaRecorder ?s = Some r" using m by simp
  from r have r': "rstate r \<noteq> inactive" by simp
  note e = stopRecording_active [OF m' r']
  show "state (step s (AnimationFrame h e)) = processing" unfolding c by (subst e) simp
  show "frames (step s (AnimationFrame h e)) = []"
    unfolding c by (simp add: stopRecording_frames split: option.splits)
  show "stops (step s (AnimationFrame h e)) = stops s + 1"
    unfolding c stops_def by (subst e) simp
qed

lemma tick_again:
  assumes "wf s" "state s = listening" "frames s = [h]" "\<not> now2 e - window e s > 2000"
  shows "state (step s (AnimationFrame h e)) = listening"
    and "frames (step s (AnimationFrame h e)) = [nextFrame s]"
    and "stops (step s (AnimationFrame h e)) = stops s"
    and "lastSoundTime (step s (AnimationFrame h e)) = window e s"
proof -
  from assms(1,2) have a: "analyser s"
    by (auto simp: wf_def)
  let ?s = "s\<lparr>frames := []\<rparr>"
  have w: "window e ?s = window e s" by (simp add: window_def)
  have c: "step s (AnimationFrame h e) = checkSilence e ?s"
    using assms(3) by simp
  have d: "checkSilence e ?s = ?s\<lparr>lastSoundTime := window e ?s, frames := frames ?s @ [nextFrame ?s],
         nextFrame := Suc (nextFrame ?s), animationFrame := Some (nextFrame ?s)\<rparr>"
    using a assms(4) w by (intro checkSilence_again) simp_all
  show "state (step s (AnimationFrame h e)) = listening" unfolding c d using assms(2) by simp
  show "frames (step s (AnimationFrame h e)) = [nextFrame s]" unfolding c d by simp
  show "stops (step s (AnimationFrame h e)) = stops s" unfolding c d stops_def by simp
  show "lastSoundTime (step s (AnimationFrame h e)) = window e s" unfolding c d w by simp
qed

section \<open>The silence window in the words of the specification\<close>

lemma silence_due_single:
  "silence_due t0 [e] = (now2 e - (if loud e then now1 e else t0) > 2000)"
  by (simp add: silence_due_def)

lemma silence_due_Cons:
  "es \<noteq> [] \<Longrightarrow> silence_due t0 (e # es) = silence_due (if loud e then now1 e else t0) es"
  by (simp add: silence_due_def)

lemma due_within_Nil [simp]: "\<not> due_within t0 []"
  by (simp add: due_within_def)

lemma due_within_Cons:
  "due_within t0 (e # es) =
     (silence_due t0 [e] \<or> due_within (if loud e then now1 e else t0) es)"
proof
  assume "due_within t0 (e # es)"
  then obtain n where n: "1 \<le> n" "n \<le> Suc (length es)" "silence_due t0 (take n (e # es))"
    by (auto simp: due_within_def)
  show "silence_due t0 [e] \<or> due_within (if loud e then now1 e else t0) es"
  proof (cases n)
    case 0
    with n show ?thesis by simp
  next
    case (Suc m)
    show ?thesis
    proof (cases "m = 0")
      case True
      with n Suc show ?thesis by simp
    next
      case False
      with n Suc have "take m es \<noteq> []" by auto
      with n Suc have "silence_due (if loud e then now1 e else t0) (take m es)"
        by (simp add: silence_due_Cons)
      with n Suc False have "due_within (if loud e then now1 e else t0) es"
        by (auto simp: due_within_def)
      then show ?thesis ..
    qed
  qed
next
  assume "silence_due t0 [e] \<or> due_within (if loud e then now1 e else t0) es"
  then show "due_within t0 (e # es)"
  proof
    assume "silence_due t0 [e]"
    then have "silence_due t0 (take 1 (e # es))" by simp
    then show ?thesis unfolding due_within_def by (intro bexI [of _ 1]) simp_all
  next
    assume "due_within (if loud e then now1 e else t0) es"
    then obtain m where m: "1 \<le> m" "m \<le> length es"
      "silence_due (if loud e then now1 e else t0) (take m es)"
      by (auto simp: due_within_def)
    then have "take m es \<noteq> []" by auto
    with m have "silence_due t0 (take (Suc m) (e # es))"
      by (simp add: silence_due_Cons)
    then show ?thesis unfolding due_within_def using m by (intro bexI [of _ "Suc m"]) simp_all
  qed
qed

lemma poll_listening:
  "wf s \<Longrightarrow> state s = listening \<Longrightarrow>
     stops (poll s es) = stops s + (if due_within (lastSoundTime s) es then 1 else 0) \<and>
     (due_within (lastSoundTime s) es \<longrightarrow>
        state (poll s es) = processing \<and> frames (poll s es) = []) \<and>
     (\<not> due_within (lastSoundTime s) es \<longrightarrow>
        state (poll s es) = listening \<and> length (frames (poll s es)) = 1 \<and>
        lastSoundTime (poll s es) = last_sound (lastSoundTime s) es)"
proof (induction es arbitrary: s)
  case Nil
  from listening_frame [OF Nil] Nil(2) show ?case by auto
next
  case (Cons e es)
  from listening_frame [OF Cons.prems] obtain h where h: "frames s = [h]" by blast
  let ?t = "step s (AnimationFrame h e)"
  have p: "poll s (e # es) = poll ?t es" using h by simp
  show ?case
  proof (cases "now2 e - window e s > 2000")
    case True
    note t = tick_due [OF Cons.prems h True]
    have "poll ?t es = ?t" using t(2) by (cases es) simp_all
    moreover have "due_within (lastSoundTime s) (e # es)"
      using True by (simp add: due_within_Cons silence_due_single window_def)
    ultimately show ?thesis using p t by simp
  next
    case False
    note t = tick_again [OF Cons.prems h False]
    have w: "wf ?t" using Cons.prems(1) by (rule wf_frame)
    have d: "due_within (lastSoundTime s) (e # es) = due_within (lastSoundTime ?t) es"
      using False t(4) by (simp add: due_within_Cons silence_due_single window_def)
    have l: "last_sound (lastSoundTime s) (e # es) = last_sound (lastSoundTime ?t) es"
      using t(4) by (simp add: window_def)
    from Cons.IH [OF w t(1)] show ?thesis
      unfolding p d l t(3) .
  qed
qed

lemma last_sound_lower:
  "t \<le> t0 \<Longrightarrow> \<forall>x \<in> set es. t \<le> now1 x \<Longrightarrow> t \<le> last_sound t0 es"
  by (induction es arbitrary: t0) auto

lemma last_sound_ge:
  "sorted (map now1 es) \<Longrightarrow> e \<in> set es \<Longrightarrow> loud e \<Longrightarrow> now1 e \<le> last_sound t0 es"
proof (induction es arbitrary: t0)
  case Nil
  then show ?case by simp
next
  case (Cons x xs)
  show ?case
  proof (cases "e = x")
    case True
    have "now1 x \<le> last_sound (now1 x) xs"
      using Cons.prems(1) by (intro last_sound_lower) auto
    with True Cons.prems(3) show ?thesis by simp
  next
    case False
    with Cons.prems have "e \<in> set xs" "sorted (map now1 xs)" by auto
    from Cons.IH [OF this(2) this(1) Cons.prems(3)] show ?thesis by simp
  qed
qed

lemma not_due_in_window:
  assumes "i \<le> j" "j < length es" "loud (es ! i)"
    and "sorted (map now1 (take (Suc j) es))"
    and "now2 (es ! j) - now1 (es ! i) \<le> 2000"
  shows "\<not> silence_due t0 (take (Suc j) es)"
proof -
  have "es ! i \<in> set (take (Suc j) es)"
    using assms(1,2) by (auto simp: in_set_conv_nth intro!: exI [of _ i])
  from last_sound_ge [OF assms(4) this assms(3)]
  have "now1 (es ! i) \<le> last_sound t0 (take (Suc j) es)" .
  moreover have "last (take (Suc j) es) = es ! j"
    using assms(2) by (simp add: take_Suc_conv_app_nth)
  ultimately show ?thesis using assms(5) by (simp add: silence_due_def)
qed

lemma due_within_take_Suc:
  "j < length es \<Longrightarrow>
     due_within t0 (take (Suc j) es) =
       (due_within t0 (take j es) \<or> silence_due t0 (take (Suc j) es))"
proof -
  assume j: "j < length es"
  have a: "take n (take (Suc j) es) = take n es" if "n \<le> Suc j" for n
    using that by (simp add: min_def)
  have b: "take n (take j es) = take n es" if "n \<le> j" for n
    using that by (simp add: min_def)
  have "due_within t0 (take (Suc j) es) = (\<exists>n \<in> {1..Suc j}. silence_due t0 (take n es))"
    using j a by (auto simp: due_within_def min_def)
  also have "\<dots> = ((\<exists>n \<in> {1..j}. silence_due t0 (take n es)) \<or> silence_due t0 (take (Suc j) es))"
  proof
    assume "\<exists>n \<in> {1..Suc j}. silence_due t0 (take n es)"
    then obtain n where n: "1 \<le> n" "n \<le> Suc j" "silence_due t0 (take n es)" by auto
    then show "(\<exists>n \<in> {1..j}. silence_due t0 (take n es)) \<or> silence_due t0 (take (Suc j) es)"
      by (cases "n = Suc j") auto
  next
    assume "(\<exists>n \<in> {1..j}. silence_due t0 (take n es)) \<or> silence_due t0 (take (Suc j) es)"
    then show "\<exists>n \<in> {1..Suc j}. silence_due t0 (take n es)"
    proof
      assume "\<exists>n \<in> {1..j}. silence_due t0 (take n es)"
      then show ?thesis by auto
    next
      assume "silence_due t0 (take (Suc j) es)"
      then show ?thesis by (intro bexI [of _ "Suc j"]) simp_all
    qed
  qed
  also have "(\<exists>n \<in> {1..j}. silence_due t0 (take n es)) = due_within t0 (take j es)"
    using j b by (auto simp: due_within_def min_def)
  finally show ?thesis .
qed

section \<open>The first tick of a start\<close>

lemma start_whole_failed:
  "initWebAudio_whole v s = (ok, s1) \<Longrightarrow> \<not> (ok \<and> initAudioOk v \<and> micGranted v) \<Longrightarrow>
     state (start_whole v s) = idle"
  by (auto simp: start_whole_def catch_start_def Let_def)

lemma start_whole_ok:
  "initWebAudio_whole v s = (True, s1) \<Longrightarrow> initAudioOk v \<Longrightarrow> micGranted v \<Longrightarrow>
     start_whole v s =
       checkSilence (tick0 v)
         (s1\<lparr>mediaRecorder := Some \<lparr>rstate = recording, onstop_mode = culturalMode s1\<rparr>,
            audioChunks := [], state := listening, zenData := None,
            effects := effects s1 @ [InitAudio, RecorderStart, StopAudio],
            lastSoundTime := now0 v\<rparr>)"
  by (simp add: start_whole_def Let_def)

lemma initWebAudio_whole_rest:
  "initWebAudio_whole v s = (ok, s1) \<Longrightarrow>
     culturalMode s1 = culturalMode s \<and> effects s1 = effects s \<and> starts s1 = starts s \<and>
     zenData s1 = zenData s \<and> timers s1 = timers s"
  by (auto simp: initWebAudio_whole_def Let_def split: option.splits if_splits)

lemma loud_examples [simp]: "\<not> loud (quiet_tick t)" "loud (loud_tick t)"
  by (simp_all add: loud_def)

text \<open>
  A start that succeeds runs the first tick itself (line 150), on the clock value it
  has just stored at line 138.
\<close>

lemma first_tick:
  assumes "wf s" "state s = idle" "state (start_whole v s) \<noteq> idle"
  shows "wf (start_whole v s)"
    and "silence_due (now0 v) [tick0 v] \<Longrightarrow>
      state (start_whole v s) = processing \<and> frames (start_whole v s) = [] \<and>
      stops (start_whole v s) = stops s + 1"
    and "\<not> silence_due (now0 v) [tick0 v] \<Longrightarrow>
      state (start_whole v s) = listening \<and> stops (start_whole v s) = stops s \<and>
      lastSoundTime (start_whole v s) = (if loud (tick0 v) then now1 (tick0 v) else now0 v)"
proof -
  show "wf (start_whole v s)" using assms(1,2) by (rule wf_start_whole)
  obtain ok s1 where iw: "initWebAudio_whole v s = (ok, s1)"
    by (cases "initWebAudio_whole v s")
  from assms(2,3) start_whole_failed [OF iw]
  have ok: "ok" "initAudioOk v" "micGranted v" by auto
  note f = initWebAudio_whole_fields [OF iw]
  note g = initWebAudio_whole_rest [OF iw]
  let ?s4 = "s1\<lparr>mediaRecorder := Some \<lparr>rstate = recording, onstop_mode = culturalMode s1\<rparr>,
            audioChunks := [], state := listening, zenData := None,
            effects := effects s1 @ [InitAudio, RecorderStart, StopAudio],
            lastSoundTime := now0 v\<rparr>"
  have e: "start_whole v s = checkSilence (tick0 v) ?s4"
    using iw ok by (simp add: start_whole_ok)
  from assms(1,2) f ok have a: "analyser ?s4" and fr: "frames s1 = []"
    by (simp_all add: wf_def)
  have w: "window (tick0 v) ?s4 = (if loud (tick0 v) then now1 (tick0 v) else now0 v)"
    by (simp add: window_def)
  have st: "stops ?s4 = stops s" using g by (simp add: stops_def)
  {
    assume "silence_due (now0 v) [tick0 v]"
    then have d: "now2 (tick0 v) - window (tick0 v) ?s4 > 2000"
      unfolding w silence_due_single .
    let ?s5 = "?s4\<lparr>lastSoundTime := window (tick0 v) ?s4\<rparr>"
    from a d have c: "checkSilence (tick0 v) ?s4 = stopRecording ?s5"
      by (rule checkSilence_due)
    have "mediaRecorder ?s5 = Some \<lparr>rstate = recording, onstop_mode = culturalMode s1\<rparr>"
      "rstate \<lparr>rstate = recording, onstop_mode = culturalMode s1\<rparr> \<noteq> inactive"
      by simp_all
    note b = stopRecording_active [OF this]
    have "state (stopRecording ?s5) = processing" by (subst b) simp
    moreover have "frames (stopRecording ?s5) = []"
      using fr by (simp add: stopRecording_frames split: option.splits)
    moreover have "stops (stopRecording ?s5) = stops ?s4 + 1"
      unfolding stops_def by (subst b) simp
    ultimately show "state (start_whole v s) = processing \<and> frames (start_whole v s) = [] \<and>
      stops (start_whole v s) = stops s + 1"
      unfolding e c st by simp
  }
  {
    assume "\<not> silence_due (now0 v) [tick0 v]"
    then have d: "\<not> now2 (tick0 v) - window (tick0 v) ?s4 > 2000"
      unfolding w silence_due_single .
    from a d have c: "checkSilence (tick0 v) ?s4 =
        ?s4\<lparr>lastSoundTime := window (tick0 v) ?s4, frames := frames ?s4 @ [nextFrame ?s4],
         nextFrame := Suc (nextFrame ?s4), animationFrame := Some (nextFrame ?s4)\<rparr>"
      by (rule checkSilence_again)
    have "stops (?s4\<lparr>lastSoundTime := window (tick0 v) ?s4, frames := frames ?s4 @ [nextFrame ?s4],
         nextFrame := Suc (nextFrame ?s4), animationFrame := Some (nextFrame ?s4)\<rparr>) = stops ?s4"
      by (simp add: stops_def)
    then show "state (start_whole v s) = listening \<and> stops (start_whole v s) = stops s \<and>
      lastSoundTime (start_whole v s) = (if loud (tick0 v) then now1 (tick0 v) else now0 v)"
      unfolding e c st [symmetric] using w by simp
  }
qed

text \<open>
  C1, as the code has it. Take a start that nothing interrupts, from an idle session with
  no start under way, and that succeeds; its first tick reads \<open>tick0\<close> and the later
  ones read \<open>es\<close>. The recorder is stopped once if at some tick more than 2000 ms have
  passed since the last sample whose mean exceeded 15, or since the clock value the
  start stored when there was none, and not at all otherwise. Once it has been stopped
  no frame is pending; until then exactly one is. A tick at most 2000 ms after an
  above-threshold sample stops nothing.
\<close>

theorem silence_stop_once:
  "calm s \<Longrightarrow> state s = idle \<Longrightarrow> t = run s (start_events v 0) \<Longrightarrow> state t \<noteq> idle \<Longrightarrow>
     stops (poll t es) =
       stops s + (if due_within (now0 v) (tick0 v # es) then 1 else 0) \<and>
     (due_within (now0 v) (tick0 v # es) \<longrightarrow>
        state (poll t es) = processing \<and> frames (poll t es) = []) \<and>
     (\<not> due_within (now0 v) (tick0 v # es) \<longrightarrow>
        state (poll t es) = listening \<and> length (frames (poll t es)) = 1) \<and>
     (\<forall>i j. i \<le> j \<and> j \<le> length es \<and> loud ((tick0 v # es) ! i) \<and>
        sorted (map now1 (take (Suc j) (tick0 v # es))) \<and>
        now2 ((tick0 v # es) ! j) - now1 ((tick0 v # es) ! i) \<le> 2000 \<longrightarrow>
        stops (poll t (take j es)) =
          (if j = 0 then stops s else stops (poll t (take (j - 1) es))))"
proof -
  assume c: "calm s" and i: "state s = idle" and t: "t = run s (start_events v 0)"
    and ok: "state t \<noteq> idle"
  from c have w: "wf s" and n: "starts s = []" by (simp_all add: calm_def)
  have t': "t = start_whole v s" unfolding t using i n by (rule start_uninterrupted)
  have ok': "state (start_whole v s) \<noteq> idle" using ok unfolding t' .
  note ft = first_tick [OF w i ok']
  have p: "stops (poll t xs) =
       stops s + (if due_within (now0 v) (tick0 v # xs) then 1 else 0) \<and>
     (due_within (now0 v) (tick0 v # xs) \<longrightarrow>
        state (poll t xs) = processing \<and> frames (poll t xs) = []) \<and>
     (\<not> due_within (now0 v) (tick0 v # xs) \<longrightarrow>
        state (poll t xs) = listening \<and> length (frames (poll t xs)) = 1)" for xs
  proof (cases "silence_due (now0 v) [tick0 v]")
    case True
    note a = ft(2) [OF True]
    then have "poll t xs = t" unfolding t' by (cases xs) simp_all
    moreover have "due_within (now0 v) (tick0 v # xs)"
      using True by (simp add: due_within_Cons)
    ultimately show ?thesis using a unfolding t' by simp
  next
    case False
    note a = ft(3) [OF False]
    from a have l: "state t = listening" unfolding t' by simp
    from ft(1) have wt: "wf t" unfolding t' .
    have d: "due_within (now0 v) (tick0 v # xs) = due_within (lastSoundTime t) xs"
      using False a unfolding t' by (simp add: due_within_Cons)
    from poll_listening [OF wt l, of xs] a show ?thesis
      unfolding d unfolding t' by simp
  qed
  have "stops (poll t (take j es)) =
          (if j = 0 then stops s else stops (poll t (take (j - 1) es)))"
    if h: "i \<le> j \<and> j \<le> length es \<and> loud ((tick0 v # es) ! i) \<and>
        sorted (map now1 (take (Suc j) (tick0 v # es))) \<and>
        now2 ((tick0 v # es) ! j) - now1 ((tick0 v # es) ! i) \<le> 2000" for i j
  proof -
    from h have nd: "\<not> silence_due (now0 v) (take (Suc j) (tick0 v # es))"
      by (intro not_due_in_window [of i]) simp_all
    show ?thesis
    proof (cases j)
      case 0
      with nd have "\<not> due_within (now0 v) (tick0 v # [])"
        by (simp add: due_within_Cons)
      with p [of "[]"] 0 show ?thesis by simp
    next
      case (Suc k)
      from h Suc have "due_within (now0 v) (take (Suc j) (tick0 v # es)) =
          (due_within (now0 v) (take j (tick0 v # es)) \<or>
           silence_due (now0 v) (take (Suc j) (tick0 v # es)))"
        by (intro due_within_take_Suc) simp
      with nd Suc have "due_within (now0 v) (tick0 v # take j es) =
          due_within (now0 v) (tick0 v # take k es)"
        by simp
      with p [of "take j es"] p [of "take k es"] Suc show ?thesis by simp
    qed
  qed
  with p [of es] show ?thesis by blast
qed

theorem silence_stop_once_witness:
  "calm mounted \<and> state mounted = idle \<and> state listening0 \<noteq> idle \<and>
   due_within (now0 (start_ok 0))
     (tick0 (start_ok 0) # [quiet_tick 1000, loud_tick 1500, quiet_tick 3000, quiet_tick 3501]) \<and>
   stops (poll listening0 [quiet_tick 1000, loud_tick 1500, quiet_tick 3000, quiet_tick 3501]) =
     stops mounted + 1 \<and>
   frames (poll listening0 [quiet_tick 1000, loud_tick 1500, quiet_tick 3000, quiet_tick 3501]) = [] \<and>
   stops (poll listening0 [quiet_tick 1000, loud_tick 1500, quiet_tick 3000]) =
     stops (poll listening0 [quiet_tick 1000, loud_tick 1500]) \<and>
   \<not> due_within (now0 (start_ok 0)) (tick0 (start_ok 0) # [quiet_tick 1000]) \<and>
   state (poll listening0 [quiet_tick 1000]) = listening"
proof -
  let ?es = "[quiet_tick 1000, loud_tick 1500, quiet_tick 3000, quiet_tick 3501]"
  let ?v = "start_ok 0"
  have i: "state mounted = idle" by (simp add: mounted_eq)
  have l: "state listening0 \<noteq> idle" by (simp add: listening0_eq)
  have v: "now0 ?v = 0" "tick0 ?v = quiet_tick 0" by (simp_all add: start_ok_def)
  have d: "due_within (now0 ?v) (tick0 ?v # ?es)"
    by (simp add: v due_within_Cons silence_due_single)
  have n: "\<not> due_within (now0 ?v) (tick0 ?v # [quiet_tick 1000])"
    by (simp add: v due_within_Cons silence_due_single)
  have j: "(2::nat) \<le> 3 \<and> 3 \<le> length ?es \<and> loud ((tick0 ?v # ?es) ! 2) \<and>
      sorted (map now1 (take (Suc 3) (tick0 ?v # ?es))) \<and>
      now2 ((tick0 ?v # ?es) ! 3) - now1 ((tick0 ?v # ?es) ! 2) \<le> 2000"
    by (simp add: v)
  note a = silence_stop_once [OF calm_mounted i listening0_def l, of ?es]
  note b = silence_stop_once [OF calm_mounted i listening0_def l, of "[quiet_tick 1000]"]
  from a d have "stops (poll listening0 ?es) = stops mounted + 1"
    and "frames (poll listening0 ?es) = []"
    by simp_all
  moreover from a j have "stops (poll listening0 (take 3 ?es)) =
      (if (3::nat) = 0 then stops mounted else stops (poll listening0 (take (3 - 1) ?es)))"
    by blast
  then have "stops (poll listening0 [quiet_tick 1000, loud_tick 1500, quiet_tick 3000]) =
     stops (poll listening0 [quiet_tick 1000, loud_tick 1500])"
    by (simp del: poll.simps)
  moreover from b n have "state (poll listening0 [quiet_tick 1000]) = listening"
    by simp
  ultimately show ?thesis using calm_mounted i l d n by blast
qed

lemma poll_loud_quiet:
  "poll listening0 [loud_tick 100, quiet_tick 2100] =
     listening0\<lparr>lastSoundTime := 100, animationFrame := Some 3, frames := [3], nextFrame := 4\<rparr>"
  by (simp add: listening0_eq checkSilence_def requestAnimationFrame_def Let_def
        SILENCE_THRESHOLD_def SILENCE_DURATION_def)

theorem silence_at_2000_counterexample:
  "loud (loud_tick 100) \<and> \<not> loud (quiet_tick 2100) \<and>
   now2 (quiet_tick 2100) - now1 (loud_tick 100) \<ge> 2000 \<and>
   stops (poll listening0 [loud_tick 100, quiet_tick 2100]) = stops listening0 \<and>
   state (poll listening0 [loud_tick 100, quiet_tick 2100]) = listening \<and>
   frames (poll listening0 [loud_tick 100, quiet_tick 2100]) = [3]"
  unfolding poll_loud_quiet by (simp add: stops_def listening0_eq)

section \<open>The continuation of handleStop\<close>

lemma settle_single:
  "tasks s = [t] \<Longrightarrow>
     settle 0 r s =
       (case continue t r s of
          (Some t', s') \<Rightarrow> s'\<lparr>tasks := [t']\<rparr>
        | (None, s') \<Rightarrow> s'\<lparr>tasks := []\<rparr>)"
  by (simp add: settle_def split: prod.splits option.splits)

lemma settle_none: "tasks s = [] \<Longrightarrow> settle k r s = s"
  by (simp add: settle_def)

lemma settle_beyond: "tasks s = [t] \<Longrightarrow> k \<noteq> 0 \<Longrightarrow> settle k r s = s"
  by (simp add: settle_def)


lemma settle_loaded:
  "tasks s = [Reading b m] \<Longrightarrow>
     settle 0 (Loaded True) s =
       s\<lparr>effects := effects s @ [AnalyzeAudio b m], tasks := [Analyzing]\<rparr>"
  by (simp add: settle_single)

lemma settle_analyzed:
  "tasks s = [Analyzing] \<Longrightarrow>
     settle 0 (Analyzed (Inr a)) s =
       s\<lparr>zenData := Some a,
         effects := effects s @ [PlayAmbient (emotion a)]
           @ (case breathing a of None \<Rightarrow> []
              | Some p \<Rightarrow> if p \<noteq> [] then [StartBreathing p] else [])
           @ [GenerateSpeech (wisdom_vi a)],
         tasks := [Synthesizing]\<rparr>"
  by (simp add: settle_single)

lemma settle_analyze_failed:
  "tasks s = [Analyzing] \<Longrightarrow>
     settle 0 (Analyzed (Inl err)) s =
       s\<lparr>state := idle,
         effects := effects s @ [ConsoleError err, Alert ''Could not connect to Zen Master.''],
         tasks := []\<rparr>"
  by (simp add: settle_single catch_processing_def)


lemma settle_synthesized_absent:
  "tasks s = [Synthesizing] \<Longrightarrow> audioContext s = None \<or> \<not> analyser s \<Longrightarrow>
     settle 0 (Synthesized (Inr audio)) s = s\<lparr>state := speaking, tasks := []\<rparr>"
  by (auto simp add: settle_single)

lemma settle_synthesize_failed:
  "tasks s = [Synthesizing] \<Longrightarrow>
     settle 0 (Synthesized (Inl err)) s =
       s\<lparr>state := idle,
         effects := effects s @ [ConsoleError err, Alert ''Could not connect to Zen Master.''],
         tasks := []\<rparr>"
  by (simp add: settle_single catch_processing_def)

lemma settle_decoded:
  "tasks s = [Decoding] \<Longrightarrow>
     settle 0 (Decoded (Inr buffer)) s =
       s\<lparr>playing := Suc (playing s), effects := effects s @ [SourceStart buffer],
         tasks := []\<rparr>"
  by (simp add: settle_single)

lemma settle_decode_failed:
  "tasks s = [Decoding] \<Longrightarrow>
     settle 0 (Decoded (Inl err)) s =
       s\<lparr>state := idle,
         effects := effects s @ [ConsoleError err, Alert ''Could not connect to Zen Master.''],
         tasks := []\<rparr>"
  by (simp add: settle_single catch_processing_def)

lemma settle_decoding_state:
  "tasks s = [Decoding] \<Longrightarrow> state s = speaking \<Longrightarrow> state (settle 0 r s) = idle \<Longrightarrow>
     \<exists>err. r = Decoded (Inl err)"
  by (cases r) (auto simp: settle_single catch_processing_def split: sum.splits)

section \<open>A session stuck in speaking\<close>

lemma speaking_inactive: "wf s \<Longrightarrow> state s = speaking \<Longrightarrow>
  \<not> rec_active s \<and> frames s = [] \<and> stopEvents s = [] \<and> \<not> recorder_live s"
  by (auto simp: wf_def rec_active_def recorder_live_def)

lemma stuck_step: "stuck s \<Longrightarrow> stuck (step s e) \<and> playbacks (step s e) = playbacks s"
proof -
  assume s: "stuck s"
  then have c: "calm s" and sp: "state s = speaking" and t: "tasks s = []"
    and p: "playing s = 0"
    by (simp_all add: stuck_def)
  from c have w: "wf s" and n: "starts s = []" by (simp_all add: calm_def)
  note i = speaking_inactive [OF w sp]
  have c': "calm (step s e)" using c sp by (intro calm_step) simp_all
  have "state (step s e) = speaking \<and> tasks (step s e) = [] \<and> playing (step s e) = 0
      \<and> playbacks (step s e) = playbacks s"
  proof (cases e)
    case (Click v)
    with sp w i show ?thesis using t p by (simp add: stopRecording_wf_inactive)
  next
    case (StartSettled k r)
    with sp t p n show ?thesis by (simp add: start_settle_def)
  next
    case (Settled k r)
    with sp t p show ?thesis by (simp add: settle_none)
  qed (use sp t p i in \<open>simp_all add: handleModeChange_def toast_timeout_def playbacks_def\<close>)
  with c' show ?thesis by (simp add: stuck_def)
qed

lemma stuck_run: "stuck s \<Longrightarrow> stuck (run s es) \<and> playbacks (run s es) = playbacks s"
proof (induction es arbitrary: s)
  case Nil
  then show ?case by simp
next
  case (Cons e es)
  from stuck_step [OF Cons.prems, of e] Cons.IH [of "step s e"] show ?case by simp
qed

section \<open>The example sessions\<close>

lemma processing0_eq:
  "processing0 =
     listening0\<lparr>state := processing,
       mediaRecorder := Some \<lparr>rstate = inactive, onstop_mode = Universal\<rparr>,
       frames := [], stopEvents := [Universal],
       effects := [InitAudio, RecorderStart, StopAudio, RecorderStop]\<rparr>"
  by (simp add: processing0_def listening0_eq stopRecording_def recorder_stop_def
        cancelAnimationFrame_def Let_def)

lemma calm_processing0: "calm processing0"
  unfolding processing0_def by (rule calm_step [OF calm_listening0]) (simp add: listening0_eq)

lemma speaking0_eq:
  "speaking0 =
     processing0\<lparr>state := speaking, zenData := Some zen0, stopEvents := [],
       tasks := [Decoding],
       effects := [InitAudio, RecorderStart, StopAudio, RecorderStop,
         AnalyzeAudio [] Universal, PlayAmbient ''calm'', StartBreathing ''4-7-8'',
         GenerateSpeech ''Tho that sau.'', DecodeAudioData [1, 2, 3]]\<rparr>"
  by (simp add: speaking0_def processing0_eq listening0_eq handleStop_def settle_def zen0_def)

lemma calm_speaking0: "calm speaking0"
  unfolding speaking0_def by (rule calm_run [OF calm_processing0]) simp

text \<open>
  C10. When synthesis has succeeded and the audio context or the analyser is absent,
  the state becomes \<open>speaking\<close> and that is all: nothing is decoded or played, no source
  with a completion callback exists, nothing is raised, and the continuation is over.
  No later event takes the session out of \<open>speaking\<close> or starts a playback.
\<close>

theorem speaking_without_playback:
  "calm s \<Longrightarrow> state s = processing \<Longrightarrow> tasks s = [Synthesizing] \<Longrightarrow>
   audioContext s = None \<or> \<not> analyser s \<Longrightarrow>
     step s (Settled 0 (Synthesized (Inr audio))) = s\<lparr>state := speaking, tasks := []\<rparr> \<and>
     playing s = 0 \<and>
     (\<forall>es. state (run (step s (Settled 0 (Synthesized (Inr audio)))) es) = speaking \<and>
           playbacks (run (step s (Settled 0 (Synthesized (Inr audio)))) es) = playbacks s)"
proof -
  assume c: "calm s" and p: "state s = processing" and t: "tasks s = [Synthesizing]"
    and a: "audioContext s = None \<or> \<not> analyser s"
  from c have w: "wf s" by (simp add: calm_def)
  let ?t = "step s (Settled 0 (Synthesized (Inr audio)))"
  have e: "?t = s\<lparr>state := speaking, tasks := []\<rparr>"
    using settle_synthesized_absent [OF t a] by simp
  from w p have p0: "playing s = 0" by (simp add: wf_def)
  have "calm ?t" using c p by (intro calm_step) simp_all
  with e p0 have st: "stuck ?t" by (simp add: stuck_def)
  have pb: "playbacks ?t = playbacks s" unfolding e by (simp add: playbacks_def)
  have "state (run ?t es) = speaking \<and> playbacks (run ?t es) = playbacks s" for es
    using stuck_run [OF st, of es] pb by (simp add: stuck_def)
  with e p0 show ?thesis by blast
qed

theorem speaking_without_playback_witness:
  "calm (speaking0\<lparr>state := processing, tasks := [Synthesizing], analyser := False\<rparr>) \<and>
   state (step (speaking0\<lparr>state := processing, tasks := [Synthesizing], analyser := False\<rparr>)
     (Settled 0 (Synthesized (Inr [9])))) = speaking \<and>
   effects (step (speaking0\<lparr>state := processing, tasks := [Synthesizing], analyser := False\<rparr>)
     (Settled 0 (Synthesized (Inr [9])))) = effects speaking0 \<and>
   state (run (step (speaking0\<lparr>state := processing, tasks := [Synthesizing], analyser := False\<rparr>)
     (Settled 0 (Synthesized (Inr [9])))) [Click running, SourceEnded, Timeout 1]) = speaking"
proof -
  let ?s = "speaking0\<lparr>state := processing, tasks := [Synthesizing], analyser := False\<rparr>"
  let ?t = "step ?s (Settled 0 (Synthesized (Inr [9])))"
  have w: "calm ?s"
    using calm_speaking0
    by (simp add: calm_def wf_def rec_active_def speaking0_eq processing0_eq listening0_eq)
  have p: "state ?s = processing" and t: "tasks ?s = [Synthesizing]"
    and a: "audioContext ?s = None \<or> \<not> analyser ?s"
    by simp_all
  note th = speaking_without_playback [OF w p t a, of "[9]"]
  from th have e: "?t = ?s\<lparr>state := speaking, tasks := []\<rparr>" by (rule conjunct1)
  from th have r: "state (run ?t [Click running, SourceEnded, Timeout 1]) = speaking"
    by blast
  have "state ?t = speaking" "effects ?t = effects speaking0"
    unfolding e by simp_all
  with w r show ?thesis by blast
qed

section \<open>Leaving speaking\<close>

lemma start_continue_idle:
  "start_continue t r s = (t', s') \<Longrightarrow> state s \<noteq> idle \<Longrightarrow> state s' = idle \<Longrightarrow>
     start_rejected r"
proof (cases "(t, r, s)" rule: start_continue.cases)
  case (3 m granted t0 e s0)
  assume a: "start_continue t r s = (t', s')" "state s' = idle"
  show ?thesis
  proof (cases granted)
    case True
    with 3 a(1) have s': "s' = listen m t0 e s" by simp
    let ?u = "s\<lparr>mediaRecorder := Some \<lparr>rstate = recording, onstop_mode = m\<rparr>,
          audioChunks := [], state := listening, zenData := None,
          effects := effects s @ [RecorderStart, StopAudio], lastSoundTime := t0\<rparr>"
    have "listen m t0 e s = checkSilence e ?u" by (simp add: listen_def Let_def)
    with checkSilence_same [of e ?u] have "state (listen m t0 e s) \<noteq> idle" by auto
    with a(2) s' show ?thesis by simp
  next
    case False
    with 3 show ?thesis by simp
  qed
qed (auto simp: after_initWebAudio_def Let_def split: if_splits)

lemma start_settle_idle:
  assumes "state s \<noteq> idle" "state (start_settle k r s) = idle"
  shows "start_rejected r \<and> k < length (starts s)"
proof (cases "k < length (starts s)")
  case False
  with assms show ?thesis by (simp add: start_settle_def)
next
  case True
  obtain t' s' where c: "start_continue (starts s ! k) r s = (t', s')"
    by (cases "start_continue (starts s ! k) r s")
  from True c assms(2) have "state s' = idle"
    by (cases t') (simp_all add: start_settle_def)
  from start_continue_idle [OF c assms(1) this] True show ?thesis by simp
qed

lemma continue_idle:
  "continue t r s = (t', s') \<Longrightarrow> state s \<noteq> idle \<Longrightarrow> state s' = idle \<Longrightarrow> rejected r"
  by (cases "(t, r, s)" rule: continue.cases)
     (auto simp: Let_def split: sum.splits if_splits)

lemma settle_idle:
  assumes "state s \<noteq> idle" "state (settle k r s) = idle"
  shows "rejected r \<and> k < length (tasks s)"
proof (cases "k < length (tasks s)")
  case False
  with assms show ?thesis by (simp add: settle_def)
next
  case True
  obtain t' s' where c: "continue (tasks s ! k) r s = (t', s')"
    by (cases "continue (tasks s ! k) r s")
  from True c assms(2) have "state s' = idle"
    by (cases t') (simp_all add: settle_def)
  from continue_idle [OF c assms(1) this] True show ?thesis by simp
qed

text \<open>
  C9, as the code has it. While the state is \<open>speaking\<close>, the events that make it \<open>idle\<close>
  are the completion callback of a playing source, the rejection of a call that a
  continuation of \<open>handleStop\<close> waits for (the catch of lines 104-108) and the rejection
  of a call that a start still under way waits for (the catch of lines 151-154); a
  timeout never does. In a session with no start under way the first two are the
  completion callback and the failure of the decode that follows the switch to
  \<open>speaking\<close>. The completion callback of a playing source does make it \<open>idle\<close>.
\<close>

theorem speaking_to_idle_triggers:
  "state s = speaking \<Longrightarrow>
     (state (step s e) = idle \<longrightarrow>
        e = SourceEnded \<and> 0 < playing s \<or>
        (\<exists>k r. e = Settled k r \<and> rejected r \<and> k < length (tasks s)) \<or>
        (\<exists>k r. e = StartSettled k r \<and> start_rejected r \<and> k < length (starts s))) \<and>
     (calm s \<and> state (step s e) = idle \<longrightarrow>
        e = SourceEnded \<or> (\<exists>err. e = Settled 0 (Decoded (Inl err)))) \<and>
     (0 < playing s \<longrightarrow> state (step s SourceEnded) = idle)"
proof (intro conjI impI)
  assume sp: "state s = speaking"
  show "state (step s SourceEnded) = idle" if "0 < playing s"
    using that by (simp add: onended_def)
  {
    assume d: "state (step s e) = idle"
    show "e = SourceEnded \<and> 0 < playing s \<or>
        (\<exists>k r. e = Settled k r \<and> rejected r \<and> k < length (tasks s)) \<or>
        (\<exists>k r. e = StartSettled k r \<and> start_rejected r \<and> k < length (starts s))"
    proof (cases e)
      case (Click c)
      with d sp show ?thesis by (simp add: stopRecording_state split: if_splits)
    next
      case (StartSettled k r)
      with d sp start_settle_idle [of s k r] show ?thesis by simp
    next
      case (AnimationFrame h x)
      with d sp checkSilence_same [of x "s\<lparr>frames := removeAll h (frames s)\<rparr>"]
      show ?thesis by (auto split: if_splits)
    next
      case (Settled k r)
      with d sp settle_idle [of s k r] show ?thesis by simp
    next
      case RecorderStopped
      with d sp show ?thesis by (cases "stopEvents s") (simp_all add: handleStop_def)
    qed (use d sp in \<open>simp_all add: handleModeChange_def toast_timeout_def
          handleDataAvailable_def split: if_splits\<close>)
  }
  assume "calm s \<and> state (step s e) = idle"
  then have c: "calm s" and d: "state (step s e) = idle" by simp_all
  from c have w: "wf s" and n: "starts s = []" by (simp_all add: calm_def)
  note i = speaking_inactive [OF w sp]
  show "e = SourceEnded \<or> (\<exists>err. e = Settled 0 (Decoded (Inl err)))"
  proof (cases e)
    case (Click v)
    with d sp w i show ?thesis by (simp add: stopRecording_wf_inactive)
  next
    case (StartSettled k r)
    with d sp n show ?thesis by (simp add: start_settle_def)
  next
    case (Settled k r)
    from w sp have "tasks s = [] \<or> tasks s = [Decoding]"
      by (cases "tasks s"; cases "tl (tasks s)") (auto simp: wf_def)
    then show ?thesis
    proof
      assume "tasks s = []"
      with d sp Settled show ?thesis by (simp add: settle_none)
    next
      assume t: "tasks s = [Decoding]"
      show ?thesis
      proof (cases "k = 0")
        case True
        with settle_decoding_state [OF t sp, of r] d Settled show ?thesis by simp
      next
        case False
        with d sp Settled t show ?thesis by (simp add: settle_beyond)
      qed
    qed
  qed (use d sp i in \<open>simp_all add: handleModeChange_def toast_timeout_def
        handleDataAvailable_def split: if_splits\<close>)
qed

theorem speaking_to_idle_triggers_witness:
  "state (step speaking0 (Settled 0 (Decoded (Inr [4])))) = speaking \<and>
   0 < playing (step speaking0 (Settled 0 (Decoded (Inr [4])))) \<and>
   state (step (step speaking0 (Settled 0 (Decoded (Inr [4])))) SourceEnded) = idle"
proof -
  let ?s = "step speaking0 (Settled 0 (Decoded (Inr [4])))"
  have t: "tasks speaking0 = [Decoding]" by (simp add: speaking0_eq)
  have e: "?s = speaking0\<lparr>playing := Suc (playing speaking0),
      effects := effects speaking0 @ [SourceStart [4]], tasks := []\<rparr>"
    using settle_decoded [OF t, of "[4]"] by simp
  have sp: "state ?s = speaking" unfolding e by (simp add: speaking0_eq)
  have p: "0 < playing ?s" unfolding e by simp
  note th = speaking_to_idle_triggers [OF sp, of SourceEnded]
  from th [THEN conjunct2, THEN conjunct2, THEN mp, OF p] sp p show ?thesis
    by (intro conjI)
qed

theorem decode_failure_counterexample:
  "state speaking0 = speaking \<and> playing speaking0 = 0 \<and>
   state (step speaking0 (Settled 0 (Decoded (Inl ''EncodingError'')))) = idle"
  by (simp add: speaking0_eq processing0_eq listening0_eq settle_def catch_processing_def)

text \<open>
  A start that is still under way when the state is \<open>speaking\<close>, and then fails, also
  makes the state \<open>idle\<close>: its catch has no guard on the state.
\<close>

lemma waiting_eq:
  "waiting =
     speaking0\<lparr>starts := [InitialisingAudio Universal],
       effects := [InitAudio, InitAudio, RecorderStart, StopAudio, RecorderStop,
         AnalyzeAudio [] Universal, PlayAmbient ''calm'', StartBreathing ''4-7-8'',
         GenerateSpeech ''Tho that sau.'', DecodeAudioData [1, 2, 3]]\<rparr>"
  by (simp add: waiting_def mounted_eq speaking0_eq processing0_eq listening0_eq
      startListening_def after_initWebAudio_def start_settle_def listen_def checkSilence_def
      requestAnimationFrame_def stopRecording_def recorder_stop_def cancelAnimationFrame_def
      handleStop_def settle_def zen0_def Let_def SILENCE_THRESHOLD_def SILENCE_DURATION_def)

lemma start_failure_while_speaking:
  "state waiting = speaking \<and>
   state (step waiting (StartSettled 0 (AudioInitialised False))) = idle \<and>
   effects (step waiting (StartSettled 0 (AudioInitialised False))) =
     effects waiting @ [Alert ''Microphone access required.'']"
  by (simp add: waiting_eq speaking0_eq start_settle_def catch_start_def)

section \<open>Bystanders of a processing\<close>

lemma busy_inactive:
  "wf s \<Longrightarrow> state s = processing \<or> state s = speaking \<Longrightarrow> \<not> rec_active s \<and> frames s = []"
  by (auto simp: wf_def)

lemma bystander_view:
  "calm s \<Longrightarrow> state s = processing \<or> state s = speaking \<Longrightarrow> bystander e \<Longrightarrow>
     view (step s e) = view s"
proof -
  assume c: "calm s" and b: "state s = processing \<or> state s = speaking" and e: "bystander e"
  from c have w: "wf s" and n: "starts s = []" by (simp_all add: calm_def)
  note i = busy_inactive [OF w b]
  show ?thesis
  proof (cases e)
    case (Click v)
    with b w i show ?thesis by (auto simp: stopRecording_wf_inactive)
  next
    case (StartSettled k r)
    with n show ?thesis by (simp add: start_settle_def)
  next
    case (AnimationFrame h t)
    with i show ?thesis by simp
  next
    case (DataAvailable d)
    then show ?thesis
      by (simp add: view_def handleDataAvailable_def playbacks_def notices_def)
  next
    case (ModeChange m items n)
    then show ?thesis
      by (simp add: view_def handleModeChange_def playbacks_def notices_def)
  next
    case (Timeout h)
    then show ?thesis
      by (simp add: view_def toast_timeout_def playbacks_def notices_def)
  qed (use e in simp_all)
qed

lemma bystanders_view:
  "calm s \<Longrightarrow> state s = processing \<or> state s = speaking \<Longrightarrow> \<forall>e \<in> set ns. bystander e \<Longrightarrow>
     calm (run s ns) \<and> view (run s ns) = view s"
proof (induction ns arbitrary: s)
  case Nil
  then show ?case by simp
next
  case (Cons e ns)
  from Cons.prems have v: "view (step s e) = view s"
    by (intro bystander_view) simp_all
  then have "state (step s e) = state s" by (simp add: view_def)
  with Cons.prems have "state (step s e) = processing \<or> state (step s e) = speaking"
    by simp
  moreover from Cons.prems have "calm (step s e)" by (intro calm_step) auto
  ultimately show ?case using Cons.IH [of "step s e"] Cons.prems(3) v by simp
qed

lemma run_snoc: "run s (ns @ e # es) = run (step (run s ns) e) es"
  by (induction ns arbitrary: s) simp_all

text \<open>One awaited step after any number of bystanders.\<close>

lemma advance:
  assumes "calm s" "view s = (st, z, ts, q, pl, g, p, n)" "st = processing \<or> st = speaking"
    and "\<forall>e \<in> set ns. bystander e"
  obtains t where "calm t" "view t = (st, z, ts, q, pl, g, p, n)"
    and "run s (ns @ e # es) = run (step t e) es" "calm (step t e)"
proof -
  from assms(2) have "state s = st" by (simp add: view_def)
  with assms(3) have "state s = processing \<or> state s = speaking" by simp
  from bystanders_view [OF assms(1) this assms(4)] assms(2)
  have "calm (run s ns)" "view (run s ns) = (st, z, ts, q, pl, g, p, n)" by simp_all
  moreover have "run s (ns @ e # es) = run (step (run s ns) e) es" by (rule run_snoc)
  moreover have "calm (step (run s ns) e)"
    using calculation(1,2) assms(3) by (intro calm_step) (auto simp: view_def)
  ultimately show ?thesis by (rule that)
qed

lemma view_stop_event:
  "view s = (processing, z, [], [m], 0, g, p, n) \<Longrightarrow>
     view (step s RecorderStopped) =
       (processing, z, [Reading (concat (audioChunks s)) m], [], 0, g, p, n)"
  by (simp add: view_def handleStop_def playbacks_def notices_def)

lemma view_loaded:
  "view s = (processing, z, [Reading b m], [], 0, g, p, n) \<Longrightarrow>
     view (step s (Settled 0 (Loaded True))) = (processing, z, [Analyzing], [], 0, g, p, n)"
  by (simp add: view_def settle_loaded playbacks_def notices_def)

lemma view_analyzed:
  "view s = (processing, z, [Analyzing], [], 0, g, p, n) \<Longrightarrow>
     view (step s (Settled 0 (Analyzed (Inr a)))) =
       (processing, Some a, [Synthesizing], [], 0, g, p, n)"
  by (simp add: view_def settle_analyzed playbacks_def notices_def split: option.splits)

lemma view_analyze_failed:
  "view s = (processing, z, [Analyzing], [], 0, g, p, n) \<Longrightarrow>
     view (step s (Settled 0 (Analyzed (Inl err)))) = (idle, z, [], [], 0, g, p, Suc n)"
  by (simp add: view_def settle_analyze_failed playbacks_def notices_def)


lemma view_synthesize_failed:
  "view s = (processing, z, [Synthesizing], [], 0, g, p, n) \<Longrightarrow>
     view (step s (Settled 0 (Synthesized (Inl err)))) = (idle, z, [], [], 0, g, p, Suc n)"
  by (simp add: view_def settle_synthesize_failed playbacks_def notices_def)



lemma view_stopped:
  "calm s \<Longrightarrow> state s = processing \<Longrightarrow> stopEvents s = [m] \<Longrightarrow>
     view s = (processing, zenData s, [], [m], 0, audioContext s \<noteq> None \<and> analyser s,
       playbacks s, notices s)"
  by (cases "tasks s") (simp_all add: view_def wf_def calm_def)


text \<open>Up to the call of the analysis.\<close>

lemma reach_analysis:
  assumes "calm s" and "state s = processing" and "stopEvents s = [m]"
    and b: "\<forall>e \<in> set n0. bystander e" "\<forall>e \<in> set n1. bystander e"
      "\<forall>e \<in> set n2. bystander e"
  shows "\<exists>t. calm t \<and>
      view t = (processing, zenData s, [Analyzing], [], 0,
        audioContext s \<noteq> None \<and> analyser s, playbacks s, notices s) \<and>
      run s (n0 @ RecorderStopped # n1 @ Settled 0 (Loaded True) # n2 @ e # es) =
        run (step t e) es \<and> calm (step t e)"
proof -
  let ?z = "zenData s" and ?p = "playbacks s" and ?n = "notices s"
  let ?g = "audioContext s \<noteq> None \<and> analyser s"
  note v = view_stopped [OF assms(1-3)]
  let ?r1 = "n2 @ e # es"
  let ?r0 = "n1 @ Settled 0 (Loaded True) # ?r1"
  from advance [OF assms(1) v _ b(1), of RecorderStopped ?r0]
  obtain t0 where t0: "view t0 = (processing, ?z, [], [m], 0, ?g, ?p, ?n)"
    "run s (n0 @ RecorderStopped # ?r0) = run (step t0 RecorderStopped) ?r0"
    "calm (step t0 RecorderStopped)"
    by blast
  note v0 = view_stop_event [OF t0(1)]
  from advance [OF t0(3) v0 _ b(2), of "Settled 0 (Loaded True)" ?r1]
  obtain t1 where t1: "view t1 = (processing, ?z, [Reading (concat (audioChunks t0)) m], [], 0, ?g, ?p, ?n)"
    "run (step t0 RecorderStopped) ?r0 = run (step t1 (Settled 0 (Loaded True))) ?r1"
    "calm (step t1 (Settled 0 (Loaded True)))"
    by blast
  note v1 = view_loaded [OF t1(1)]
  from advance [OF t1(3) v1 _ b(3), of e es]
  obtain t2 where t2: "calm t2" "view t2 = (processing, ?z, [Analyzing], [], 0, ?g, ?p, ?n)"
    "run (step t1 (Settled 0 (Loaded True))) ?r1 = run (step t2 e) es"
    "calm (step t2 e)"
    by blast
  from t0(2) t1(2) t2 show ?thesis by auto
qed

text \<open>The same with a rejected analysis, or a rejected synthesis.\<close>

lemma processing_fails:
  assumes "calm s" and "state s = processing" and "stopEvents s = [m]"
    and "\<forall>e \<in> set (n0 @ n1 @ n2 @ n3). bystander e"
  shows
    "state (run s (cycle_analysis_fails n0 n1 n2 err)) = idle \<and>
     notices (run s (cycle_analysis_fails n0 n1 n2 err)) = notices s + 1 \<and>
     playbacks (run s (cycle_analysis_fails n0 n1 n2 err)) = playbacks s \<and>
     tasks (run s (cycle_analysis_fails n0 n1 n2 err)) = [] \<and>
     playing (run s (cycle_analysis_fails n0 n1 n2 err)) = 0 \<and>
     state (run s (cycle_synthesis_fails n0 n1 n2 n3 a err)) = idle \<and>
     notices (run s (cycle_synthesis_fails n0 n1 n2 n3 a err)) = notices s + 1 \<and>
     playbacks (run s (cycle_synthesis_fails n0 n1 n2 n3 a err)) = playbacks s \<and>
     tasks (run s (cycle_synthesis_fails n0 n1 n2 n3 a err)) = [] \<and>
     playing (run s (cycle_synthesis_fails n0 n1 n2 n3 a err)) = 0 \<and>
     zenData (run s (cycle_analysis_fails n0 n1 n2 err)) = zenData s \<and>
     zenData (run s (cycle_synthesis_fails n0 n1 n2 n3 a err)) = Some a"
proof -
  let ?z = "zenData s" and ?p = "playbacks s" and ?n = "notices s"
  let ?g = "audioContext s \<noteq> None \<and> analyser s"
  from assms(4) have b: "\<forall>e \<in> set n0. bystander e" "\<forall>e \<in> set n1. bystander e"
    "\<forall>e \<in> set n2. bystander e" "\<forall>e \<in> set n3. bystander e"
    by simp_all
  note v = view_stopped [OF assms(1-3)]
  note first = reach_analysis [OF assms(1-3) b(1-3)]
  have "view (run s (cycle_analysis_fails n0 n1 n2 err)) = (idle, ?z, [], [], 0, ?g, ?p, ?n + 1)"
  proof -
    from first [where e = "Settled 0 (Analyzed (Inl err))" and es = "[]"]
    obtain t where t: "view t = (processing, ?z, [Analyzing], [], 0, ?g, ?p, ?n)"
      "run s (cycle_analysis_fails n0 n1 n2 err) = step t (Settled 0 (Analyzed (Inl err)))"
      unfolding cycle_analysis_fails_def by auto
    from view_analyze_failed [OF t(1), of err] t(2) show ?thesis by simp
  qed
  moreover
  have "view (run s (cycle_synthesis_fails n0 n1 n2 n3 a err)) =
      (idle, Some a, [], [], 0, ?g, ?p, ?n + 1)"
  proof -
    let ?r = "n3 @ [Settled 0 (Synthesized (Inl err))]"
    from first [where e = "Settled 0 (Analyzed (Inr a))" and es = ?r]
    obtain t where t: "view t = (processing, ?z, [Analyzing], [], 0, ?g, ?p, ?n)"
      "run s (cycle_synthesis_fails n0 n1 n2 n3 a err) =
         run (step t (Settled 0 (Analyzed (Inr a)))) ?r"
      "calm (step t (Settled 0 (Analyzed (Inr a))))"
      unfolding cycle_synthesis_fails_def by auto
    note v2 = view_analyzed [OF t(1), of a]
    from advance [OF t(3) v2 _ b(4), of "Settled 0 (Synthesized (Inl err))" "[]"]
    obtain u where u: "view u = (processing, Some a, [Synthesizing], [], 0, ?g, ?p, ?n)"
      "run (step t (Settled 0 (Analyzed (Inr a)))) ?r = run (step u (Settled 0 (Synthesized (Inl err)))) []"
      by blast
    from view_synthesize_failed [OF u(1), of err] t(2) u(2) show ?thesis by simp
  qed
  ultimately show ?thesis by (simp add: view_def)
qed

section \<open>What a failed processing leaves\<close>




lemma delivered_Cons: "delivered (e # es) = delivered [e] @ delivered es"
  by (cases e) simp_all










section \<open>Chunks of a capture\<close>

lemma stopRecording_chunks: "audioChunks (stopRecording s) = audioChunks s"
  using stopRecording_same [of s] by simp

lemma checkSilence_chunks: "audioChunks (checkSilence e s) = audioChunks s"
  using checkSilence_same [of e s] by simp

lemma start_capturing:
  assumes "calm s" "state s = idle" "state (start_whole v s) \<noteq> idle"
  shows "capturing (culturalMode s) (start_whole v s)"
    and "audioChunks (start_whole v s) = []"
proof -
  from assms(1) have ws: "wf s" and ns: "starts s = []" by (simp_all add: calm_def)
  obtain ok s1 where iw: "initWebAudio_whole v s = (ok, s1)"
    by (cases "initWebAudio_whole v s")
  from assms(2,3) start_whole_failed [OF iw]
  have ok: "ok" "initAudioOk v" "micGranted v" by auto
  note f = initWebAudio_whole_fields [OF iw]
  have c: "culturalMode s1 = culturalMode s"
    using initWebAudio_whole_rest [OF iw] by simp
  let ?s4 = "s1\<lparr>mediaRecorder := Some \<lparr>rstate = recording, onstop_mode = culturalMode s1\<rparr>,
            audioChunks := [], state := listening, zenData := None,
            effects := effects s1 @ [InitAudio, RecorderStart, StopAudio],
            lastSoundTime := now0 v\<rparr>"
  have e: "start_whole v s = checkSilence (tick0 v) ?s4"
    using iw ok by (simp add: start_whole_ok)
  show "audioChunks (start_whole v s) = []"
    unfolding e by (simp add: checkSilence_chunks)
  have w: "calm (start_whole v s)"
    using ws assms(2) ns by (simp add: calm_def wf_start_whole start_whole_starts)
  from ws assms(2) f have q1: "stopEvents s1 = []" "tasks s1 = []" "analyser s1"
    using ok by (simp_all add: wf_def)
  then have q: "stopEvents ?s4 = []" "tasks ?s4 = []" "analyser ?s4"
    by simp_all
  have "tasks (checkSilence (tick0 v) ?s4) = [] \<and>
     (state (checkSilence (tick0 v) ?s4) = listening \<and>
        map_option onstop_mode (mediaRecorder (checkSilence (tick0 v) ?s4)) = Some (culturalMode s) \<or>
      state (checkSilence (tick0 v) ?s4) = processing \<and>
        stopEvents (checkSilence (tick0 v) ?s4) = [culturalMode s])"
  proof (cases "now2 (tick0 v) - window (tick0 v) ?s4 > 2000")
    case False
    with q(3) have "checkSilence (tick0 v) ?s4 =
        ?s4\<lparr>lastSoundTime := window (tick0 v) ?s4, frames := frames ?s4 @ [nextFrame ?s4],
         nextFrame := Suc (nextFrame ?s4), animationFrame := Some (nextFrame ?s4)\<rparr>"
      by (rule checkSilence_again)
    then show ?thesis using q1 c by simp
  next
    case True
    let ?s5 = "?s4\<lparr>lastSoundTime := window (tick0 v) ?s4\<rparr>"
    from q(3) True have d: "checkSilence (tick0 v) ?s4 = stopRecording ?s5"
      by (rule checkSilence_due)
    have "mediaRecorder ?s5 = Some \<lparr>rstate = recording, onstop_mode = culturalMode s1\<rparr>"
      "rstate \<lparr>rstate = recording, onstop_mode = culturalMode s1\<rparr> \<noteq> inactive"
      by simp_all
    note a = stopRecording_active [OF this]
    have "tasks (stopRecording ?s5) = []" by (subst a) (simp add: q1)
    moreover have "state (stopRecording ?s5) = processing" by (subst a) simp
    moreover have "stopEvents (stopRecording ?s5) = [culturalMode s]"
      by (subst a) (simp add: q1 c)
    ultimately show ?thesis unfolding d by simp
  qed
  with w show "capturing (culturalMode s) (start_whole v s)"
    unfolding e capturing_def by simp
qed

lemma capturing_stop:
  assumes "wf s" "state s = listening" "map_option onstop_mode (mediaRecorder s) = Some m"
    "tasks s = []"
  shows "tasks (stopRecording s) = []" "state (stopRecording s) = processing"
    "stopEvents (stopRecording s) = [m]"
proof -
  from assms(1,2) have r: "map_option rstate (mediaRecorder s) = Some recording"
    and q: "stopEvents s = []"
    by (simp_all add: wf_def)
  with assms(3) obtain r where "mediaRecorder s = Some r" "rstate r \<noteq> inactive"
    and m: "onstop_mode r = m"
    by auto
  note a = stopRecording_active [OF this(1,2)]
  show "tasks (stopRecording s) = []" by (subst a) (simp add: assms(4))
  show "state (stopRecording s) = processing" by (subst a) simp
  show "stopEvents (stopRecording s) = [m]" by (subst a) (simp add: q m)
qed

lemma capturing_step:
  assumes "capturing m s" "e \<noteq> RecorderStopped"
  shows "capturing m (step s e)"
    and "audioChunks (step s e) = audioChunks s @ delivered [e]"
proof -
  from assms(1) have cs: "calm s" and t: "tasks s = []"
    and c: "state s = listening \<and> map_option onstop_mode (mediaRecorder s) = Some m \<or>
      state s = processing \<and> stopEvents s = [m]"
    by (simp_all add: capturing_def)
  from cs have w: "wf s" and ns: "starts s = []" by (simp_all add: calm_def)
  have w': "calm (step s e)" using cs c by (intro calm_step) auto
  from w c have p0: "playing s = 0" by (auto simp: wf_def)
  from w c have live: "recorder_live s"
    by (auto simp: wf_def recorder_live_def split: option.splits)
  have "(tasks (step s e) = [] \<and>
      (state (step s e) = listening \<and> map_option onstop_mode (mediaRecorder (step s e)) = Some m \<or>
       state (step s e) = processing \<and> stopEvents (step s e) = [m])) \<and>
     audioChunks (step s e) = audioChunks s @ delivered [e]"
  proof (cases e)
    case (Click v)
    from c show ?thesis
    proof
      assume l: "state s = listening \<and> map_option onstop_mode (mediaRecorder s) = Some m"
      with capturing_stop [OF w _ _ t, of m] Click show ?thesis
        by (simp add: stopRecording_chunks)
    next
      assume p: "state s = processing \<and> stopEvents s = [m]"
      with w have "\<not> rec_active s" by (simp add: wf_def)
      with w have "stopRecording s = s" by (rule stopRecording_wf_inactive)
      with p t Click show ?thesis by simp
    qed
  next
    case (AnimationFrame h x)
    show ?thesis
    proof (cases "h \<in> set (frames s)")
      case False
      with AnimationFrame c t show ?thesis by simp
    next
      case True
      with w c have l: "state s = listening" "map_option onstop_mode (mediaRecorder s) = Some m"
        and f: "frames s = [h]"
        by (auto simp: wf_def)
      from w l(1) have a: "analyser s" by (simp add: wf_def)
      let ?s = "s\<lparr>frames := []\<rparr>"
      have e': "step s (AnimationFrame h x) = checkSilence x ?s" using f by simp
      have "tasks (checkSilence x ?s) = [] \<and>
        (state (checkSilence x ?s) = listening \<and>
           map_option onstop_mode (mediaRecorder (checkSilence x ?s)) = Some m \<or>
         state (checkSilence x ?s) = processing \<and> stopEvents (checkSilence x ?s) = [m])"
      proof (cases "now2 x - window x ?s > 2000")
        case False
        with a have "checkSilence x ?s =
            ?s\<lparr>lastSoundTime := window x ?s, frames := frames ?s @ [nextFrame ?s],
              nextFrame := Suc (nextFrame ?s), animationFrame := Some (nextFrame ?s)\<rparr>"
          by (intro checkSilence_again) simp_all
        then show ?thesis using l t by simp
      next
        case True
        let ?u = "?s\<lparr>lastSoundTime := window x ?s\<rparr>"
        from a True have d: "checkSilence x ?s = stopRecording ?u"
          by (intro checkSilence_due) simp_all
        have "wf (?u\<lparr>frames := [h]\<rparr>)"
          using w l(1) f by (simp add: wf_def rec_active_def)
        have r: "map_option rstate (mediaRecorder s) = Some recording" and q: "stopEvents s = []"
          using w l(1) by (simp_all add: wf_def)
        with l(2) obtain r where "mediaRecorder ?u = Some r" "rstate r \<noteq> inactive"
          and m: "onstop_mode r = m"
          by auto
        note b = stopRecording_active [OF this(1,2)]
        have "tasks (stopRecording ?u) = []" by (subst b) (simp add: t)
        moreover have "state (stopRecording ?u) = processing" by (subst b) simp
        moreover have "stopEvents (stopRecording ?u) = [m]" by (subst b) (simp add: q m)
        ultimately show ?thesis unfolding d by simp
      qed
      then show ?thesis
        unfolding AnimationFrame e' by (simp add: checkSilence_chunks)
    qed
  next
    case (StartSettled k r)
    with c t ns show ?thesis by (simp add: start_settle_def)
  next
    case (DataAvailable d)
    with live c t show ?thesis by (auto simp: handleDataAvailable_def)
  next
    case RecorderStopped
    with assms(2) show ?thesis by simp
  next
    case (Settled k r)
    with c t show ?thesis by (simp add: settle_none)
  next
    case SourceEnded
    with c t p0 show ?thesis by simp
  next
    case (ModeChange mode items n)
    with c t show ?thesis by (simp add: handleModeChange_def)
  next
    case (Timeout h)
    with c t show ?thesis by (simp add: toast_timeout_def)
  qed
  with w' show "capturing m (step s e)" and "audioChunks (step s e) = audioChunks s @ delivered [e]"
    by (simp_all add: capturing_def)
qed

lemma capturing_run:
  "capturing m s \<Longrightarrow> RecorderStopped \<notin> set es \<Longrightarrow>
     capturing m (run s es) \<and> audioChunks (run s es) = audioChunks s @ delivered es"
proof (induction es arbitrary: s)
  case Nil
  then show ?case by simp
next
  case (Cons e es)
  from Cons.prems have n: "e \<noteq> RecorderStopped" "RecorderStopped \<notin> set es" by auto
  note st = capturing_step [OF Cons.prems(1) n(1)]
  from Cons.IH [OF st(1) n(2)] st(2) show ?case
    by (simp add: delivered_Cons [of e es])
qed





section \<open>Reachable sessions\<close>

text \<open>
  The audio context and the analyser, once made, are never taken away (lines 51 and 59
  are the only assignments of the two refs), and a start that succeeds has made both.
\<close>

lemma has_audio_step: "has_audio s \<Longrightarrow> has_audio (step s e)"
proof (cases e)
  case (Click c)
  assume "has_audio s"
  with Click stopRecording_same [of s] show ?thesis
    by (cases "audioContext s")
       (auto simp: has_audio_def startListening_def after_initWebAudio_def Let_def)
next
  case (StartSettled k r)
  assume a: "has_audio s"
  show ?thesis
  proof (cases "k < length (starts s)")
    case False
    with a StartSettled show ?thesis by (simp add: start_settle_def)
  next
    case True
    obtain t' s' where c: "start_continue (starts s ! k) r s = (t', s')"
      by (cases "start_continue (starts s ! k) r s")
    from start_continue_same [OF c] a True c StartSettled show ?thesis
      by (cases t') (simp_all add: start_settle_def has_audio_def)
  qed
next
  case (AnimationFrame h x)
  assume "has_audio s"
  with AnimationFrame checkSilence_same [of x "s\<lparr>frames := removeAll h (frames s)\<rparr>"]
  show ?thesis by (auto simp: has_audio_def)
next
  case (Settled k r)
  assume "has_audio s"
  with Settled settle_same [of k r s] show ?thesis by (simp add: has_audio_def kept_def)
qed (auto simp: has_audio_def handleDataAvailable_def handleStop_def onended_def
       handleModeChange_def toast_timeout_def split: list.splits)

lemma has_audio_run: "has_audio s \<Longrightarrow> has_audio (run s es)"
  by (induction es arbitrary: s) (simp_all add: has_audio_step)

lemma start_audio:
  assumes "state s = idle" "state (start_whole v s) \<noteq> idle"
  shows "has_audio (start_whole v s)"
proof -
  obtain ok s1 where iw: "initWebAudio_whole v s = (ok, s1)"
    by (cases "initWebAudio_whole v s")
  from assms start_whole_failed [OF iw]
  have ok: "ok" "initAudioOk v" "micGranted v" by auto
  from initWebAudio_whole_fields [OF iw] ok have "analyser s1 \<and> audioContext s1 \<noteq> None" by simp
  then show ?thesis
    using iw ok by (simp add: start_whole_ok checkSilence_same has_audio_def)
qed

text \<open>
  A pending tick always finds the analyser: a frame is requested only by a tick that
  has passed the guard of line 141, and the analyser is never taken away.
\<close>

lemma analyser_step: "analyser s \<Longrightarrow> analyser (step s e)"
proof (cases e)
  case (Click c)
  assume "analyser s"
  with Click stopRecording_same [of s] show ?thesis
    by (cases "audioContext s")
       (auto simp: startListening_def after_initWebAudio_def Let_def)
next
  case (StartSettled k r)
  assume a: "analyser s"
  show ?thesis
  proof (cases "k < length (starts s)")
    case False
    with a StartSettled show ?thesis by (simp add: start_settle_def)
  next
    case True
    obtain t' s' where c: "start_continue (starts s ! k) r s = (t', s')"
      by (cases "start_continue (starts s ! k) r s")
    from start_continue_same [OF c] a True c StartSettled show ?thesis
      by (cases t') (simp_all add: start_settle_def)
  qed
next
  case (AnimationFrame h x)
  assume "analyser s"
  with AnimationFrame checkSilence_same [of x "s\<lparr>frames := removeAll h (frames s)\<rparr>"]
  show ?thesis by auto
next
  case (Settled k r)
  assume "analyser s"
  with Settled settle_same [of k r s] show ?thesis by (simp add: kept_def)
qed (auto simp: handleDataAvailable_def handleStop_def onended_def
       handleModeChange_def toast_timeout_def split: list.splits)

lemma start_continue_frames:
  "start_continue t r s = (t', s') \<Longrightarrow> \<not> analyser s' \<Longrightarrow> frames s' = frames s"
proof (cases "(t, r, s)" rule: start_continue.cases)
  case (3 m granted t0 e s0)
  assume a: "start_continue t r s = (t', s')" "\<not> analyser s'"
  with 3 have s': "s' = (if granted then listen m t0 e s else catch_start s)"
    by (auto split: if_splits)
  with a(2) listen_same [of m t0 e s] have "\<not> analyser s"
    by (cases granted) (simp_all add: catch_start_def)
  then have "listen m t0 e s =
      s\<lparr>mediaRecorder := Some \<lparr>rstate = recording, onstop_mode = m\<rparr>,
          audioChunks := [], state := listening, zenData := None,
          effects := effects s @ [RecorderStart, StopAudio], lastSoundTime := t0\<rparr>"
    by (simp add: listen_def Let_def checkSilence_absent)
  with s' show ?thesis by (cases granted) (simp_all add: catch_start_def)
qed (auto simp: catch_start_def after_initWebAudio_def Let_def split: if_splits)

lemma frames_step:
  assumes "\<not> analyser (step s e)"
  shows "set (frames (step s e)) \<subseteq> set (frames s)"
proof -
  from assms analyser_step [of s e] have n: "\<not> analyser s" by blast
  show ?thesis
  proof (cases e)
    case (Click c)
    then show ?thesis
      by (cases "audioContext s")
         (auto simp: startListening_def after_initWebAudio_def Let_def stopRecording_frames
            split: option.splits if_splits)
  next
    case (StartSettled k r)
    show ?thesis
    proof (cases "k < length (starts s)")
      case False
      with StartSettled show ?thesis by (simp add: start_settle_def)
    next
      case True
      obtain t' s' where c: "start_continue (starts s ! k) r s = (t', s')"
        by (cases "start_continue (starts s ! k) r s")
      from assms True c StartSettled have "\<not> analyser s'"
        by (cases t') (simp_all add: start_settle_def)
      from start_continue_frames [OF c this] True c StartSettled show ?thesis
        by (cases t') (simp_all add: start_settle_def)
    qed
  next
    case (AnimationFrame h x)
    with n show ?thesis by (auto simp: checkSilence_absent)
  next
    case (Settled k r)
    with settle_same [of k r s] show ?thesis by (simp add: kept_def)
  qed (auto simp: handleDataAvailable_def handleStop_def onended_def
         handleModeChange_def toast_timeout_def split: list.splits)
qed

lemma pending_tick_step:
  "frames s \<noteq> [] \<longrightarrow> analyser s \<Longrightarrow> frames (step s e) \<noteq> [] \<longrightarrow> analyser (step s e)"
  using frames_step [of s e] analyser_step [of s e] by (cases "frames s") auto

lemma pending_tick_run:
  "frames s \<noteq> [] \<longrightarrow> analyser s \<Longrightarrow> frames (run s es) \<noteq> [] \<longrightarrow> analyser (run s es)"
proof (induction es arbitrary: s)
  case Nil
  then show ?case by simp
next
  case (Cons e es)
  from Cons.IH [OF pending_tick_step [OF Cons.prems]] show ?case by simp
qed

lemma pending_tick_analyser:
  "frames (run (mount c x n) es) \<noteq> [] \<Longrightarrow> analyser (run (mount c x n) es)"
proof -
  have "frames (mount c x n) = []"
    by (simp add: mount_def loadCache_def split: option.splits)
  then have "frames (mount c x n) \<noteq> [] \<longrightarrow> analyser (mount c x n)" by simp
  from pending_tick_run [OF this] show "frames (run (mount c x n) es) \<noteq> [] \<Longrightarrow>
      analyser (run (mount c x n) es)"
    by simp
qed

section \<open>Complete cycles\<close>

lemma run_append: "run s (xs @ ys) = run (run s xs) ys"
  by (induction xs arbitrary: s) simp_all

lemma stopRecording_counts:
  "playbacks (stopRecording s) = playbacks s \<and> notices (stopRecording s) = notices s"
  using stopRecording_same [of s] by simp

lemma checkSilence_counts:
  "playbacks (checkSilence e s) = playbacks s \<and> notices (checkSilence e s) = notices s"
  using checkSilence_same [of e s] by simp

lemma start_counts:
  assumes "state s = idle" "state (start_whole v s) \<noteq> idle"
  shows "playbacks (start_whole v s) = playbacks s \<and> notices (start_whole v s) = notices s"
proof -
  obtain ok s1 where iw: "initWebAudio_whole v s = (ok, s1)"
    by (cases "initWebAudio_whole v s")
  from assms start_whole_failed [OF iw]
  have ok: "ok" "initAudioOk v" "micGranted v" by auto
  have e: "effects s1 = effects s"
    using initWebAudio_whole_rest [OF iw] by simp
  show ?thesis
    using iw ok
    by (simp add: start_whole_ok checkSilence_counts) (simp add: playbacks_def notices_def e)
qed

lemma capture_counts:
  assumes "capturing m s" "e \<noteq> RecorderStopped"
  shows "playbacks (step s e) = playbacks s \<and> notices (step s e) = notices s"
proof -
  from assms(1) have t: "tasks s = []" and i: "state s \<noteq> idle"
    by (auto simp: capturing_def)
  show ?thesis
  proof (cases e)
    case (Click v)
    with i show ?thesis by (simp add: stopRecording_counts)
  next
    case (AnimationFrame h x)
    have "playbacks (s\<lparr>frames := removeAll h (frames s)\<rparr>) = playbacks s"
      "notices (s\<lparr>frames := removeAll h (frames s)\<rparr>) = notices s"
      by (simp_all add: playbacks_def notices_def)
    with AnimationFrame show ?thesis by (simp add: checkSilence_counts)
  next
    case (StartSettled k r)
    from assms(1) have "starts s = []" by (simp add: capturing_def calm_def)
    with StartSettled show ?thesis by (simp add: start_settle_def)
  next
    case (Settled k r)
    with t show ?thesis by (simp add: settle_none)
  qed (use assms(2) in \<open>simp_all add: playbacks_def notices_def handleDataAvailable_def
        onended_def handleModeChange_def toast_timeout_def\<close>)
qed

lemma capture_run_counts:
  "capturing m s \<Longrightarrow> RecorderStopped \<notin> set es \<Longrightarrow>
     playbacks (run s es) = playbacks s \<and> notices (run s es) = notices s"
proof (induction es arbitrary: s)
  case Nil
  then show ?case by simp
next
  case (Cons e es)
  from Cons.prems have n: "e \<noteq> RecorderStopped" "RecorderStopped \<notin> set es" by auto
  from Cons.IH [OF capturing_step(1) [OF Cons.prems(1) n(1)] n(2)]
    capture_counts [OF Cons.prems(1) n(1)]
  show ?case by simp
qed

text \<open>
  A successful start followed by events among which the capture stops leads to a
  session with no start under way, with its audio context and analyser, in
  \<open>processing\<close> with the stop event queued and nothing played or noticed since the
  start of the cycle.
\<close>

lemma capture_stopped:
  assumes "calm s" "state s = idle" "state (run s (start_events v 0)) \<noteq> idle"
    and "RecorderStopped \<notin> set es" "state (run (run s (start_events v 0)) es) = processing"
  shows "calm (run (run s (start_events v 0)) es)"
    and "stopEvents (run (run s (start_events v 0)) es) = [culturalMode s]"
    and "audioContext (run (run s (start_events v 0)) es) \<noteq> None \<and>
      analyser (run (run s (start_events v 0)) es)"
    and "playbacks (run (run s (start_events v 0)) es) = playbacks s"
    and "notices (run (run s (start_events v 0)) es) = notices s"
proof -
  let ?t = "run s (start_events v 0)"
  from assms(1) have "starts s = []" by (simp add: calm_def)
  with assms(2) have u: "?t = start_whole v s" by (rule start_uninterrupted)
  from assms(3) have ok: "state (start_whole v s) \<noteq> idle" unfolding u .
  note st = start_capturing [OF assms(1,2) ok, folded u]
  from capturing_run [OF st(1) assms(4)]
  have c: "capturing (culturalMode s) (run ?t es)" by simp
  then show w: "calm (run ?t es)" by (simp add: capturing_def)
  from c assms(5) show "stopEvents (run ?t es) = [culturalMode s]"
    by (simp add: capturing_def)
  have "has_audio ?t" using start_audio [OF assms(2) ok] unfolding u .
  then have "has_audio (run ?t es)" by (rule has_audio_run)
  then show "audioContext (run ?t es) \<noteq> None \<and> analyser (run ?t es)"
    by (simp add: has_audio_def)
  from capture_run_counts [OF st(1) assms(4)] start_counts [OF assms(2) ok, folded u]
  show "playbacks (run ?t es) = playbacks s" and "notices (run ?t es) = notices s"
    by simp_all
qed



text \<open>
  C3. From an idle session, let a start succeed and the capture stop among the events
  \<open>es\<close>; then let the analysis be rejected, or the analysis resolve and the synthesis
  be rejected, with any bystanders in between. Then the state is \<open>idle\<close>, exactly one
  notice has been raised in the cycle, no playback has been started, and nothing is
  left that could start one: no continuation and no playing source.
\<close>

theorem failed_cycle:
  assumes "calm s" and "state s = idle" and "state (run s (start_events v 0)) \<noteq> idle"
    and "RecorderStopped \<notin> set es"
    and "state (run (run s (start_events v 0)) es) = processing"
    and "\<forall>e \<in> set (n0 @ n1 @ n2 @ n3). bystander e"
  shows
    "state (run s (start_events v 0 @ es @ cycle_analysis_fails n0 n1 n2 err)) = idle \<and>
     notices (run s (start_events v 0 @ es @ cycle_analysis_fails n0 n1 n2 err)) =
       notices s + 1 \<and>
     playbacks (run s (start_events v 0 @ es @ cycle_analysis_fails n0 n1 n2 err)) =
       playbacks s \<and>
     tasks (run s (start_events v 0 @ es @ cycle_analysis_fails n0 n1 n2 err)) = [] \<and>
     playing (run s (start_events v 0 @ es @ cycle_analysis_fails n0 n1 n2 err)) = 0 \<and>
     state (run s (start_events v 0 @ es @ cycle_synthesis_fails n0 n1 n2 n3 a err)) = idle \<and>
     notices (run s (start_events v 0 @ es @ cycle_synthesis_fails n0 n1 n2 n3 a err)) =
       notices s + 1 \<and>
     playbacks (run s (start_events v 0 @ es @ cycle_synthesis_fails n0 n1 n2 n3 a err)) =
       playbacks s \<and>
     tasks (run s (start_events v 0 @ es @ cycle_synthesis_fails n0 n1 n2 n3 a err)) = [] \<and>
     playing (run s (start_events v 0 @ es @ cycle_synthesis_fails n0 n1 n2 n3 a err)) = 0"
proof -
  let ?u = "run (run s (start_events v 0)) es"
  note c = capture_stopped [OF assms(1-5)]
  have "run s (start_events v 0 @ es @ xs) = run ?u xs" for xs
    by (simp only: run_append)
  with processing_fails [OF c(1) assms(5) c(2) assms(6), of err a] c(4,5)
  show ?thesis by simp
qed

theorem failed_cycle_witness:
  "calm mounted \<and> state mounted = idle \<and>
   state (run mounted (start_events (start_ok 0) 0)) \<noteq> idle \<and>
   state (run (run mounted (start_events (start_ok 0) 0)) [Click running]) = processing \<and>
   state (run mounted (start_events (start_ok 0) 0 @ [Click running] @
     cycle_analysis_fails [] [Click running] [] ''503'')) = idle \<and>
   notices (run mounted (start_events (start_ok 0) 0 @ [Click running] @
     cycle_analysis_fails [] [Click running] [] ''503'')) = notices mounted + 1 \<and>
   playbacks (run mounted (start_events (start_ok 0) 0 @ [Click running] @
     cycle_synthesis_fails [] [Click running] [] [Timeout 1] zen0 ''503'')) =
     playbacks mounted"
proof -
  have i: "state mounted = idle" by (simp add: mounted_eq)
  have ok: "state (run mounted (start_events (start_ok 0) 0)) \<noteq> idle"
    unfolding listening0_def [symmetric] by (simp add: listening0_eq)
  have n: "RecorderStopped \<notin> set [Click running]" by simp
  have p: "state (run (run mounted (start_events (start_ok 0) 0)) [Click running]) = processing"
    unfolding listening0_def [symmetric]
    by (simp add: listening0_eq stopRecording_def recorder_stop_def
        cancelAnimationFrame_def Let_def)
  have b: "\<forall>e \<in> set ([] @ [Click running] @ [] @ [Timeout 1]). bystander e"
    by simp
  from failed_cycle [OF calm_mounted i ok n p b, of "''503''" zen0] calm_mounted i ok p
  show ?thesis by blast
qed

end
